theory Spec2Isabelle
  imports Main "HOL-Library.Char_ord" "HOL-Library.List_Lexorder" "HOL-Library.Word" "HOL-Library.Multiset"
begin

section \<open>Data model of UniqueNumberCounter.cpp\<close>

text \<open>
  \<^verbatim>\<open>RaiseError\<close> throws a \<^verbatim>\<open>runtime_error\<close> carrying a message. The source also has
  places whose behaviour C++ leaves undefined (an index outside a \<^verbatim>\<open>vector\<close>, a null
  pointer that is dereferenced); the model gives them a result of their own instead of
  inventing a value.
\<close>

datatype failure = runtime_error string | undefined_behaviour

text \<open>
  \<^verbatim>\<open>Node::Edges\<close> is a typedef naming one of the three edge collections; the source
  has \<^verbatim>\<open>typedef IndexedEdges Edges\<close>. The choice is a parameter of the model.
\<close>

datatype Edges = Unordered | Ordered | Indexed

text \<open>
  A \<^verbatim>\<open>Node\<close> has the single member \<^verbatim>\<open>m_Edges\<close>, so a node is its collection. An
  \<^verbatim>\<open>Edge\<close> is the pair of \<^verbatim>\<open>m_Value\<close> and \<^verbatim>\<open>m_Next\<close>.
  \<^item> \<^verbatim>\<open>UnorderedEdges\<close>: \<^verbatim>\<open>list<shared_ptr<Edge> >\<close>, in insertion order;
  \<^item> \<^verbatim>\<open>OrderedEdges\<close>: \<^verbatim>\<open>map<string, shared_ptr<Edge> >\<close>, the entries in ascending key
    order, each a key with its edge (the key is the label the edge had when it was added);
  \<^item> \<^verbatim>\<open>IndexedEdges\<close>: \<^verbatim>\<open>vector<shared_ptr<Edge> >\<close>, a null pointer is \<open>None\<close>.
\<close>

datatype node =
    UnorderedEdges "(string \<times> node) list"
  | OrderedEdges "(string \<times> string \<times> node) list"
  | IndexedEdges "(string \<times> node) option list"

type_synonym edge = "string \<times> node"

text \<open>\<^verbatim>\<open>Node()\<close>: a node with no edges; \<^verbatim>\<open>IndexedEdges()\<close> allocates ten null slots.\<close>

definition Node_new :: "Edges \<Rightarrow> node" where
  "Node_new E = (case E of
       Unordered \<Rightarrow> UnorderedEdges []
     | Ordered \<Rightarrow> OrderedEdges []
     | Indexed \<Rightarrow> IndexedEdges (replicate 10 None))"

text \<open>\<^verbatim>\<open>Edge(value, next)\<close>: a null \<^verbatim>\<open>next\<close> is replaced by a new empty node.\<close>

definition Edge_new :: "Edges \<Rightarrow> string \<Rightarrow> node option \<Rightarrow> edge" where
  "Edge_new E val next = (val, case next of None \<Rightarrow> Node_new E | Some n \<Rightarrow> n)"

section \<open>Edge\<close>

text \<open>The \<^verbatim>\<open>for\<close> loop of \<^verbatim>\<open>Edge::GetNumCommonChars\<close>, with its counter.\<close>

function GetNumCommonChars_loop :: "string \<Rightarrow> string \<Rightarrow> nat \<Rightarrow> nat" where
  "GetNumCommonChars_loop m_Value remainder numCommonChars =
     (if numCommonChars < length m_Value \<and> numCommonChars < length remainder
      then (if m_Value ! numCommonChars \<noteq> remainder ! numCommonChars
            then numCommonChars
            else GetNumCommonChars_loop m_Value remainder (Suc numCommonChars))
      else numCommonChars)"
  by pat_completeness auto
termination
  by (relation "measure (\<lambda>(v, r, n). length v - n)") auto

declare GetNumCommonChars_loop.simps [simp del]

definition GetNumCommonChars :: "string \<Rightarrow> string \<Rightarrow> failure + nat" where
  "GetNumCommonChars m_Value remainder =
     (if remainder = [] then Inl (runtime_error ''invalid remainder'')
      else Inr (GetNumCommonChars_loop m_Value remainder 0))"

section \<open>The three edge collections\<close>

subsection \<open>UnorderedEdges\<close>

definition UnorderedEdges_Add :: "edge list \<Rightarrow> edge \<Rightarrow> edge list" where
  "UnorderedEdges_Add m_Container edge = m_Container @ [edge]"

text \<open>
  \<^verbatim>\<open>Find\<close> returns the pair of the count and the edge found. The edge is a pointer into
  the collection, which the model gives as the position in the collection (\<open>None\<close> is
  the null pointer). The scan starts at position \<open>i\<close>.
\<close>

fun UnorderedEdges_Find_loop :: "edge list \<Rightarrow> string \<Rightarrow> nat \<Rightarrow> failure + nat \<times> nat option" where
  "UnorderedEdges_Find_loop [] remainder i = Inr (0, None)"
| "UnorderedEdges_Find_loop (edge # rest) remainder i =
     (case GetNumCommonChars (fst edge) remainder of
        Inl e \<Rightarrow> Inl e
      | Inr n \<Rightarrow> if n > 0 then Inr (n, Some i)
               else UnorderedEdges_Find_loop rest remainder (Suc i))"

definition UnorderedEdges_Find :: "edge list \<Rightarrow> string \<Rightarrow> failure + nat \<times> nat option" where
  "UnorderedEdges_Find m_Container remainder = UnorderedEdges_Find_loop m_Container remainder 0"

subsection \<open>OrderedEdges\<close>

text \<open>\<^verbatim>\<open>map::insert\<close>: keeps the entries in key order and leaves an existing key alone.\<close>

fun map_insert :: "string \<Rightarrow> edge \<Rightarrow> (string \<times> edge) list \<Rightarrow> (string \<times> edge) list" where
  "map_insert k v [] = [(k, v)]"
| "map_insert k v ((k', v') # kvs) =
     (if k = k' then (k', v') # kvs
      else if k < k' then (k, v) # (k', v') # kvs
      else (k', v') # map_insert k v kvs)"

definition OrderedEdges_Add :: "(string \<times> edge) list \<Rightarrow> edge \<Rightarrow> (string \<times> edge) list" where
  "OrderedEdges_Add m_Container edge = map_insert (fst edge) edge m_Container"

text \<open>\<^verbatim>\<open>map::upper_bound\<close>: the position of the first key greater than the argument.\<close>

fun upper_bound :: "(string \<times> edge) list \<Rightarrow> string \<Rightarrow> nat" where
  "upper_bound [] x = 0"
| "upper_bound ((k, v) # kvs) x = (if x < k then 0 else Suc (upper_bound kvs x))"

text \<open>
  After \<^verbatim>\<open>upper_bound\<close> the edge found is tried, and when it shares nothing the entry
  before it. The post-decrement \<^verbatim>\<open>iter--\<close> also runs when \<^verbatim>\<open>iter\<close> is \<^verbatim>\<open>begin()\<close>, and
  decrementing \<^verbatim>\<open>begin()\<close> is undefined.
\<close>

definition OrderedEdges_Find :: "(string \<times> edge) list \<Rightarrow> string \<Rightarrow> failure + nat \<times> nat option" where
  "OrderedEdges_Find m_Container remainder =
     (if m_Container \<noteq> [] then
        (let iter = upper_bound m_Container remainder in
         case (if iter \<noteq> length m_Container
               then (case GetNumCommonChars (fst (snd (m_Container ! iter))) remainder of
                       Inl e \<Rightarrow> Inl e
                     | Inr n \<Rightarrow> Inr (n, if n > 0 then Some iter else None))
               else Inr (0, None)) of
           Inl e \<Rightarrow> Inl e
         | Inr ret \<Rightarrow>
             if fst ret = 0 then
               (if iter \<noteq> 0
                then (case GetNumCommonChars (fst (snd (m_Container ! (iter - 1)))) remainder of
                        Inl e \<Rightarrow> Inl e
                      | Inr n \<Rightarrow> Inr (n, if n > 0 then Some (iter - 1) else snd ret))
                else Inl undefined_behaviour)
             else Inr ret)
      else Inr (0, None))"

subsection \<open>IndexedEdges\<close>

text \<open>
  \<^verbatim>\<open>s[0] - '0'\<close> for a \<^verbatim>\<open>const string\<close>: position 0 of the empty string reads the
  terminating null character. The difference is an \<^verbatim>\<open>int\<close>; used as a \<^verbatim>\<open>vector\<close> index
  it is inside the ten slots exactly for the characters \<^verbatim>\<open>'0'\<close> to \<^verbatim>\<open>'9'\<close>, whether
  \<^verbatim>\<open>char\<close> is signed or not.
\<close>

definition char0_minus_zero :: "string \<Rightarrow> int" where
  "char0_minus_zero s = (case s of [] \<Rightarrow> 0 | c # _ \<Rightarrow> of_char c) - of_char CHR ''0''"

definition IndexedEdges_Add :: "edge option list \<Rightarrow> edge \<Rightarrow> failure + edge option list" where
  "IndexedEdges_Add m_Container edge =
     (let i = char0_minus_zero (fst edge) in
      if 0 \<le> i \<and> i < int (length m_Container)
      then Inr (m_Container[nat i := Some edge])
      else Inl undefined_behaviour)"

definition IndexedEdges_Find :: "edge option list \<Rightarrow> string \<Rightarrow> failure + nat \<times> nat option" where
  "IndexedEdges_Find m_Container remainder =
     (let i = char0_minus_zero remainder in
      if 0 \<le> i \<and> i < int (length m_Container)
      then (case m_Container ! nat i of
              None \<Rightarrow> Inr (0, None)
            | Some edge \<Rightarrow>
                (case GetNumCommonChars (fst edge) remainder of
                   Inl e \<Rightarrow> Inl e
                 | Inr n \<Rightarrow> Inr (n, Some (nat i))))
      else Inl undefined_behaviour)"

subsection \<open>The collection a node was compiled with\<close>

fun Edges_Add :: "node \<Rightarrow> edge \<Rightarrow> failure + node" where
  "Edges_Add (UnorderedEdges c) edge = Inr (UnorderedEdges (UnorderedEdges_Add c edge))"
| "Edges_Add (OrderedEdges c) edge = Inr (OrderedEdges (OrderedEdges_Add c edge))"
| "Edges_Add (IndexedEdges c) edge =
     (case IndexedEdges_Add c edge of Inl e \<Rightarrow> Inl e | Inr c' \<Rightarrow> Inr (IndexedEdges c'))"

fun Edges_Find :: "node \<Rightarrow> string \<Rightarrow> failure + nat \<times> nat option" where
  "Edges_Find (UnorderedEdges c) remainder = UnorderedEdges_Find c remainder"
| "Edges_Find (OrderedEdges c) remainder = OrderedEdges_Find c remainder"
| "Edges_Find (IndexedEdges c) remainder = IndexedEdges_Find c remainder"

text \<open>
  The edge a position points to (\<^verbatim>\<open>GetEdge\<close> in the source, of an iterator), and the
  write through that pointer: \<^verbatim>\<open>Edge::Eat\<close> changes the edge in place, which the model
  does by storing the changed edge at the same position. A map entry keeps its key.
\<close>

fun GetEdge :: "node \<Rightarrow> nat \<Rightarrow> edge option" where
  "GetEdge (UnorderedEdges c) i = (if i < length c then Some (c ! i) else None)"
| "GetEdge (OrderedEdges c) i = (if i < length c then Some (snd (c ! i)) else None)"
| "GetEdge (IndexedEdges c) i = (if i < length c then c ! i else None)"

fun PutEdge :: "node \<Rightarrow> nat \<Rightarrow> edge \<Rightarrow> node" where
  "PutEdge (UnorderedEdges c) i edge = UnorderedEdges (c[i := edge])"
| "PutEdge (OrderedEdges c) i edge = OrderedEdges (c[i := (fst (c ! i), edge)])"
| "PutEdge (IndexedEdges c) i edge = IndexedEdges (c[i := Some edge])"

section \<open>Node and Edge::Eat\<close>

text \<open>\<^verbatim>\<open>Node(firstEdge, secondEdge)\<close>: both pointers must be set; the edges are added in turn.\<close>

definition Node_new2 :: "Edges \<Rightarrow> edge option \<Rightarrow> edge option \<Rightarrow> failure + node" where
  "Node_new2 E firstEdge secondEdge =
     (case firstEdge of
        None \<Rightarrow> Inl (runtime_error ''invalid edge'')
      | Some f \<Rightarrow>
          (case secondEdge of
             None \<Rightarrow> Inl (runtime_error ''invalid edge'')
           | Some s \<Rightarrow>
               (case Edges_Add (Node_new E) f of
                  Inl e \<Rightarrow> Inl e
                | Inr n \<Rightarrow> Edges_Add n s)))"

text \<open>
  \<^verbatim>\<open>Edge::Eat\<close> returns the changed edge, the pointer it returns, the remainder and
  \<^verbatim>\<open>isUnique\<close>. The pointer is either the edge's own \<^verbatim>\<open>m_Next\<close> or null, so it is the
  flag \<open>True\<close> (this edge's child) or \<open>False\<close> (null).
\<close>

definition Edge_Eat :: "Edges \<Rightarrow> nat \<Rightarrow> edge \<Rightarrow> string \<Rightarrow> bool \<Rightarrow> failure + edge \<times> bool \<times> string \<times> bool" where
  "Edge_Eat E numCommonChars edge remainder isUnique =
     (let m_Value = fst edge; m_Next = snd edge in
      if numCommonChars = 0 \<or> numCommonChars > min (length m_Value) (length remainder)
      then Inl (runtime_error ''invalid numCommonChars'')
      else if remainder = [] then Inl (runtime_error ''invalid remainder'')
      else if numCommonChars > 0 then
        (if numCommonChars = length m_Value
         then Inr ((m_Value, m_Next), True, drop numCommonChars remainder, isUnique)
         else
           (let commonValue = take numCommonChars m_Value;
                firstChildValue = drop numCommonChars m_Value;
                secondChildValue = drop numCommonChars remainder;
                firstEdge = Edge_new E firstChildValue (Some m_Next);
                secondEdge = Edge_new E secondChildValue None
            in case Node_new2 E (Some firstEdge) (Some secondEdge) of
                 Inl e \<Rightarrow> Inl e
               | Inr n \<Rightarrow> Inr ((commonValue, n), False, [], True)))
      else Inr ((m_Value, m_Next), False, remainder, isUnique))"

text \<open>
  \<^verbatim>\<open>Node::Eat\<close> returns the changed node, the pointer \<^verbatim>\<open>next\<close> (the position of the edge
  whose child it is, or \<open>None\<close> for null), the remainder and \<^verbatim>\<open>isUnique\<close>.
\<close>

definition Node_Eat :: "Edges \<Rightarrow> node \<Rightarrow> string \<Rightarrow> bool \<Rightarrow> failure + node \<times> nat option \<times> string \<times> bool" where
  "Node_Eat E this remainder isUnique =
     (if remainder = [] then Inl (runtime_error ''invalid remainder'')
      else case Edges_Find this remainder of
        Inl e \<Rightarrow> Inl e
      | Inr ret \<Rightarrow>
          (case (if fst ret > 0
                 then (case snd ret of
                         None \<Rightarrow> Inl undefined_behaviour
                       | Some i \<Rightarrow>
                           (case GetEdge this i of
                              None \<Rightarrow> Inl undefined_behaviour
                            | Some edge \<Rightarrow>
                                (case Edge_Eat E (fst ret) edge remainder isUnique of
                                   Inl e \<Rightarrow> Inl e
                                 | Inr (edge', follow, remainder', isUnique') \<Rightarrow>
                                     Inr (PutEdge this i edge',
                                          if follow then Some i else None,
                                          remainder', isUnique'))))
                 else Inr (this, None, remainder, isUnique)) of
             Inl e \<Rightarrow> Inl e
           | Inr (this', next, remainder', isUnique') \<Rightarrow>
               if next = None \<and> remainder' \<noteq> []
               then (case Edges_Add this' (Edge_new E remainder' None) of
                       Inl e \<Rightarrow> Inl e
                     | Inr this'' \<Rightarrow> Inr (this'', next, [], True))
               else Inr (this', next, remainder', isUnique')))"

section \<open>CompactRadixTreeAlgorithm\<close>

text \<open>
  When \<^verbatim>\<open>Edge::Eat\<close> returns the edge's child it has stripped the whole label, which
  is not empty, from the remainder; the loop of \<^verbatim>\<open>IsUnique\<close> ends for that reason.
\<close>

lemma Edge_Eat_follow:
  "Edge_Eat E k edge r u = Inr (edge', True, r', u') \<Longrightarrow>
     edge' = edge \<and> r' = drop k r \<and> u' = u \<and> 0 < k \<and> k = length (fst edge) \<and> k \<le> length r"
  by (auto simp: Edge_Eat_def Let_def split: if_splits sum.splits)

lemma Node_Eat_follow:
  assumes "Node_Eat E n r u = Inr (n', Some i, r', u')"
  shows "length r' < length r"
  using assms
  unfolding Node_Eat_def
  by (auto split: if_splits sum.splits option.splits prod.splits dest!: Edge_Eat_follow)

text \<open>
  The loop \<^verbatim>\<open>while (!remainder.empty()) current = current->Eat(remainder, isUnique)\<close>.
  \<^verbatim>\<open>current\<close> points into the tree and \<^verbatim>\<open>Eat\<close> changes the tree in place; the model
  returns the subtree at \<^verbatim>\<open>current\<close> as the rest of the loop leaves it, and stores it
  back under the edge that led to it. A null \<^verbatim>\<open>current\<close> with characters left would be
  dereferenced by the next round.
\<close>

function IsUnique_loop :: "Edges \<Rightarrow> node \<Rightarrow> string \<Rightarrow> bool \<Rightarrow> failure + node \<times> bool" where
  "IsUnique_loop E current remainder isUnique =
     (if remainder = [] then Inr (current, isUnique)
      else case Node_Eat E current remainder isUnique of
        Inl e \<Rightarrow> Inl e
      | Inr (current', next, remainder', isUnique') \<Rightarrow>
          (case next of
             None \<Rightarrow> if remainder' = [] then Inr (current', isUnique') else Inl undefined_behaviour
           | Some i \<Rightarrow>
               (case GetEdge current' i of
                  None \<Rightarrow> Inl undefined_behaviour
                | Some (val, child) \<Rightarrow>
                    (case IsUnique_loop E child remainder' isUnique' of
                       Inl e \<Rightarrow> Inl e
                     | Inr (child', u) \<Rightarrow> Inr (PutEdge current' i (val, child'), u)))))"
  by pat_completeness auto
termination
  by (relation "measure (\<lambda>(E, n, r, u). length r)") (auto dest: Node_Eat_follow)

declare IsUnique_loop.simps [simp del]

definition CompactRadixTreeAlgorithm_IsUnique :: "Edges \<Rightarrow> node \<Rightarrow> string \<Rightarrow> failure + node \<times> bool" where
  "CompactRadixTreeAlgorithm_IsUnique E m_Root val = IsUnique_loop E m_Root val False"

definition CompactRadixTreeAlgorithm_Reset :: "Edges \<Rightarrow> node \<Rightarrow> node" where
  "CompactRadixTreeAlgorithm_Reset E m_Root = Node_new E"

section \<open>SetAlgorithm\<close>

text \<open>\<^verbatim>\<open>set::insert\<close> returns, second, whether the element was inserted.\<close>

definition SetAlgorithm_IsUnique :: "string set \<Rightarrow> string \<Rightarrow> string set \<times> bool" where
  "SetAlgorithm_IsUnique m_Numbers number = (insert number m_Numbers, number \<notin> m_Numbers)"

definition SetAlgorithm_Reset :: "string set \<Rightarrow> string set" where
  "SetAlgorithm_Reset m_Numbers = {}"

section \<open>IUniqueNumberAlgorithm\<close>

datatype algorithm = CompactRadixTreeAlgorithm node | SetAlgorithm "string set"

datatype AlgorithmType = CompactRadixTree | Set

text \<open>The \<^verbatim>\<open>default\<close> branch of the switch needs a value outside the enumeration.\<close>

definition CreateInstance :: "Edges \<Rightarrow> AlgorithmType \<Rightarrow> algorithm" where
  "CreateInstance E algorithmType = (case algorithmType of
       CompactRadixTree \<Rightarrow> CompactRadixTreeAlgorithm (Node_new E)
     | Set \<Rightarrow> SetAlgorithm {})"

fun Reset :: "Edges \<Rightarrow> algorithm \<Rightarrow> algorithm" where
  "Reset E (CompactRadixTreeAlgorithm m_Root) =
     CompactRadixTreeAlgorithm (CompactRadixTreeAlgorithm_Reset E m_Root)"
| "Reset E (SetAlgorithm m_Numbers) = SetAlgorithm (SetAlgorithm_Reset m_Numbers)"

fun IsUnique :: "Edges \<Rightarrow> algorithm \<Rightarrow> string \<Rightarrow> failure + algorithm \<times> bool" where
  "IsUnique E (CompactRadixTreeAlgorithm m_Root) val =
     (case CompactRadixTreeAlgorithm_IsUnique E m_Root val of
        Inl e \<Rightarrow> Inl e
      | Inr (m_Root', b) \<Rightarrow> Inr (CompactRadixTreeAlgorithm m_Root', b))"
| "IsUnique E (SetAlgorithm m_Numbers) val =
     (case SetAlgorithm_IsUnique m_Numbers val of
        (m_Numbers', b) \<Rightarrow> Inr (SetAlgorithm m_Numbers', b))"

text \<open>
  A detector is used through a sequence of calls; \<open>calls\<close> runs one and collects what
  each \<^verbatim>\<open>IsUnique\<close> returned. A call that fails ends the run.
\<close>

datatype call = Reset_call | IsUnique_call string

fun calls :: "Edges \<Rightarrow> algorithm \<Rightarrow> call list \<Rightarrow> failure + algorithm \<times> bool list" where
  "calls E a [] = Inr (a, [])"
| "calls E a (Reset_call # cs) = calls E (Reset E a) cs"
| "calls E a (IsUnique_call v # cs) =
     (case IsUnique E a v of
        Inl e \<Rightarrow> Inl e
      | Inr (a', b) \<Rightarrow>
          (case calls E a' cs of
             Inl e \<Rightarrow> Inl e
           | Inr (a'', bs) \<Rightarrow> Inr (a'', b # bs)))"

section \<open>UniqueNumberCounter\<close>

text \<open>
  \<^verbatim>\<open>m_Count\<close> is a \<^verbatim>\<open>size_t\<close>, taken as 64 bits wide, and \<^verbatim>\<open>m_Count++\<close> wraps.
  \<^verbatim>\<open>m_NumExpectedDigits\<close> is only compared with sizes and is a natural number.
\<close>

record UniqueNumberCounter =
  m_NumExpectedDigits :: nat
  m_Algorithm :: algorithm
  m_Count :: "64 word"


text \<open>\<^verbatim>\<open>isdigit\<close> in the C locale.\<close>

definition isdigit :: "char \<Rightarrow> bool" where
  "isdigit ch = (of_char CHR ''0'' \<le> (of_char ch :: nat) \<and> (of_char ch :: nat) \<le> of_char CHR ''9'')"




definition GetCount :: "UniqueNumberCounter \<Rightarrow> 64 word" where
  "GetCount this = m_Count this"

section \<open>Properties of the model\<close>

subsection \<open>Common prefixes and the edges of a node\<close>

fun common :: "string \<Rightarrow> string \<Rightarrow> nat" where
  "common (x # xs) (y # ys) = (if x = y then Suc (common xs ys) else 0)"
| "common _ _ = 0"

lemma GetNumCommonChars_loop_common:
  "n \<le> length v \<Longrightarrow> n \<le> length r \<Longrightarrow>
     GetNumCommonChars_loop v r n = n + common (drop n v) (drop n r)"
proof (induction v r n rule: GetNumCommonChars_loop.induct)
  case (1 v r n)
  show ?case
  proof (cases "n < length v \<and> n < length r")
    case True
    then have dv: "drop n v = v ! n # drop (Suc n) v" and dr: "drop n r = r ! n # drop (Suc n) r"
      by (simp_all add: Cons_nth_drop_Suc)
    show ?thesis
    proof (cases "v ! n = r ! n")
      case True
      with \<open>n < length v \<and> n < length r\<close> 1 show ?thesis
        by (subst GetNumCommonChars_loop.simps) (simp add: dv dr)
    next
      case False
      with \<open>n < length v \<and> n < length r\<close> show ?thesis
        by (subst GetNumCommonChars_loop.simps) (simp add: dv dr)
    qed
  next
    case False
    then have "drop n v = [] \<or> drop n r = []" by auto
    then have "common (drop n v) (drop n r) = 0"
      by (cases "drop n v") auto
    with False show ?thesis
      by (subst GetNumCommonChars_loop.simps) auto
  qed
qed

lemma GetNumCommonChars_common:
  "r \<noteq> [] \<Longrightarrow> GetNumCommonChars v r = Inr (common v r)"
  by (simp add: GetNumCommonChars_def GetNumCommonChars_loop_common)

lemma GetNumCommonChars_Inr:
  "GetNumCommonChars v r = Inr k \<Longrightarrow> r \<noteq> [] \<and> k = common v r"
  by (auto simp: GetNumCommonChars_def GetNumCommonChars_loop_common split: if_splits)

lemma common_le: "common v r \<le> length v" "common v r \<le> length r"
  by (induction v r rule: common.induct) auto

lemma common_take: "take (common v r) v = take (common v r) r"
  by (induction v r rule: common.induct) auto

lemma common_mismatch:
  "common v r < length v \<Longrightarrow> common v r < length r \<Longrightarrow> v ! common v r \<noteq> r ! common v r"
  by (induction v r rule: common.induct) (auto split: if_splits)

lemma common_pos: "0 < common v r \<longleftrightarrow> v \<noteq> [] \<and> r \<noteq> [] \<and> hd v = hd r"
  by (cases v; cases r) auto

lemma common_full: "common v r = length v \<longleftrightarrow> take (length v) r = v"
  by (induction v r rule: common.induct) auto

fun edges_of :: "node \<Rightarrow> edge list" where
  "edges_of (UnorderedEdges c) = c"
| "edges_of (OrderedEdges c) = map snd c"
| "edges_of (IndexedEdges c) = map the (filter (\<lambda>x. x \<noteq> None) c)"

fun kind :: "node \<Rightarrow> Edges" where
  "kind (UnorderedEdges c) = Unordered"
| "kind (OrderedEdges c) = Ordered"
| "kind (IndexedEdges c) = Indexed"

definition first_of :: "string \<Rightarrow> char option" where
  "first_of s = (case s of [] \<Rightarrow> None | c # _ \<Rightarrow> Some c)"

lemma first_of_simps [simp]: "first_of [] = None" "first_of (c # s) = Some c"
  by (simp_all add: first_of_def)

lemma common_pos_first: "0 < common v r \<longleftrightarrow> first_of v \<noteq> None \<and> first_of v = first_of r"
  by (cases v; cases r) auto

lemma common_zero_first: "common v r = 0 \<longleftrightarrow> first_of v = None \<or> first_of v \<noteq> first_of r"
  using common_pos_first [of v r] by auto

fun node_ok :: "node \<Rightarrow> bool" where
  "node_ok (UnorderedEdges c) = distinct (map (first_of \<circ> fst) c)"
| "node_ok (OrderedEdges c) =
     (sorted_wrt (<) (map fst c) \<and> (\<forall>x\<in>set c. first_of (fst (snd x)) = first_of (fst x))
      \<and> distinct (map (first_of \<circ> fst \<circ> snd) c))"
| "node_ok (IndexedEdges c) =
     (length c = 10 \<and> (\<forall>i<length c. \<forall>e. c ! i = Some e \<longrightarrow> char0_minus_zero (fst e) = int i))"

lemma size_edges_of: "e \<in> set (edges_of n) \<Longrightarrow> size (snd e) < size n"
proof (cases n)
  case (UnorderedEdges c)
  assume "e \<in> set (edges_of n)"
  with UnorderedEdges have "e \<in> set c" by simp
  then have "size_prod (\<lambda>x. 0) size e \<le> size_list (size_prod (\<lambda>x. 0) size) c"
    by (simp add: size_list_estimation')
  with UnorderedEdges show ?thesis by (cases e) simp
next
  case (OrderedEdges c)
  assume "e \<in> set (edges_of n)"
  with OrderedEdges obtain k where "(k, e) \<in> set c" by auto
  then have "size_prod (\<lambda>x. 0) (size_prod (\<lambda>x. 0) size) (k, e)
      \<le> size_list (size_prod (\<lambda>x. 0) (size_prod (\<lambda>x. 0) size)) c"
    by (simp add: size_list_estimation')
  with OrderedEdges show ?thesis by (cases e) simp
next
  case (IndexedEdges c)
  assume "e \<in> set (edges_of n)"
  with IndexedEdges have "Some e \<in> set c" by auto
  then have "size_option (size_prod (\<lambda>x. 0) size) (Some e)
      \<le> size_list (size_option (size_prod (\<lambda>x. 0) size)) c"
    by (simp add: size_list_estimation')
  with IndexedEdges show ?thesis by (cases e) simp
qed

lemma edges_of_Indexed [simp]: "set (edges_of (IndexedEdges c)) = {e. Some e \<in> set c}"
  by force

declare edges_of.simps(3) [simp del]

lemma GetEdge_in_edges: "GetEdge n i = Some e \<Longrightarrow> e \<in> set (edges_of n)"
proof (cases n)
  case (UnorderedEdges c)
  assume "GetEdge n i = Some e"
  with UnorderedEdges have "i < length c" "c ! i = e" by (simp_all split: if_splits)
  then have "e \<in> set c" by (metis nth_mem)
  with UnorderedEdges show ?thesis by simp
next
  case (OrderedEdges c)
  assume "GetEdge n i = Some e"
  with OrderedEdges have "i < length c" "snd (c ! i) = e" by (simp_all split: if_splits)
  then have "e \<in> snd ` set c" by (metis nth_mem image_eqI)
  with OrderedEdges show ?thesis by simp
next
  case (IndexedEdges c)
  assume "GetEdge n i = Some e"
  with IndexedEdges have "i < length c" "c ! i = Some e" by (simp_all split: if_splits)
  then have "Some e \<in> set c" by (metis nth_mem)
  with IndexedEdges show ?thesis by simp
qed

lemma edges_GetEdge: "e \<in> set (edges_of n) \<Longrightarrow> \<exists>i. GetEdge n i = Some e"
proof (cases n)
  case (UnorderedEdges c)
  assume "e \<in> set (edges_of n)"
  with UnorderedEdges obtain i where "i < length c" "c ! i = e" by (auto simp: in_set_conv_nth)
  then have "GetEdge (UnorderedEdges c) i = Some e" by simp
  with UnorderedEdges show ?thesis by blast
next
  case (OrderedEdges c)
  assume "e \<in> set (edges_of n)"
  with OrderedEdges obtain x where "x \<in> set c" "snd x = e" by auto
  then obtain i where "i < length c" "c ! i = x" by (auto simp: in_set_conv_nth)
  with \<open>snd x = e\<close> have "GetEdge (OrderedEdges c) i = Some e" by simp
  with OrderedEdges show ?thesis by blast
next
  case (IndexedEdges c)
  assume "e \<in> set (edges_of n)"
  with IndexedEdges have "Some e \<in> set c" by simp
  then obtain i where "i < length c" "c ! i = Some e" by (auto simp: in_set_conv_nth)
  then have "GetEdge (IndexedEdges c) i = Some e" by simp
  with IndexedEdges show ?thesis by blast
qed

lemma edges_of_GetEdge: "set (edges_of n) = {e. \<exists>i. GetEdge n i = Some e}"
  using GetEdge_in_edges edges_GetEdge by blast

lemma PutEdge_same: "GetEdge n i = Some e \<Longrightarrow> PutEdge n i e = n"
  by (cases n) (auto split: if_splits intro: list_update_same_conv [THEN iffD2])

lemma kind_PutEdge [simp]: "kind (PutEdge n i e) = kind n"
  by (cases n) auto

lemma GetEdge_PutEdge:
  "GetEdge n i = Some e \<Longrightarrow> GetEdge (PutEdge n i e') j = (if j = i then Some e' else GetEdge n j)"
  by (cases n) (auto split: if_splits)

lemma char0_first: "first_of a = first_of b \<Longrightarrow> char0_minus_zero a = char0_minus_zero b"
  by (cases a; cases b) (auto simp: char0_minus_zero_def)

lemma char0_range:
  "0 \<le> char0_minus_zero s \<and> char0_minus_zero s < 10 \<longleftrightarrow> s \<noteq> [] \<and> isdigit (hd s)"
proof (cases s)
  case Nil
  then show ?thesis by (simp add: char0_minus_zero_def)
next
  case (Cons a list)
  have "(of_char a :: int) = int (of_char a)" by (simp add: of_nat_of_char)
  then show ?thesis using Cons by (simp add: char0_minus_zero_def isdigit_def) linarith
qed

lemma char0_inj:
  "char0_minus_zero a = char0_minus_zero b \<Longrightarrow> 0 \<le> char0_minus_zero a \<Longrightarrow> first_of a = first_of b"
  by (cases a; cases b) (auto simp: char0_minus_zero_def)

subsection \<open>Find\<close>

lemma UnorderedEdges_Find_loop_pos:
  "UnorderedEdges_Find_loop c r j = Inr (k, p) \<Longrightarrow> 0 < k \<Longrightarrow>
     \<exists>i<length c. p = Some (j + i) \<and> k = common (fst (c ! i)) r"
proof (induction c arbitrary: j)
  case Nil
  then show ?case by simp
next
  case (Cons x c)
  show ?case
  proof (cases "GetNumCommonChars (fst x) r")
    case (Inl e)
    with Cons.prems show ?thesis by simp
  next
    case (Inr m)
    then have m: "m = common (fst x) r" by (simp add: GetNumCommonChars_Inr)
    show ?thesis
    proof (cases "0 < m")
      case True
      with Inr Cons.prems m show ?thesis by auto
    next
      case False
      with Inr Cons.prems have "UnorderedEdges_Find_loop c r (Suc j) = Inr (k, p)" by simp
      from Cons.IH [OF this \<open>0 < k\<close>] obtain i where
        "i < length c" "p = Some (Suc j + i)" "k = common (fst (c ! i)) r" by blast
      then have "Suc i < length (x # c) \<and> p = Some (j + Suc i) \<and> k = common (fst ((x # c) ! Suc i)) r"
        by simp
      then show ?thesis by blast
    qed
  qed
qed

lemma UnorderedEdges_Find_loop_zero:
  "UnorderedEdges_Find_loop c r j = Inr (0, p) \<Longrightarrow> e \<in> set c \<Longrightarrow> common (fst e) r = 0"
proof (induction c arbitrary: j)
  case Nil
  then show ?case by simp
next
  case (Cons x c)
  show ?case
  proof (cases "GetNumCommonChars (fst x) r")
    case (Inl e)
    with Cons.prems show ?thesis by simp
  next
    case (Inr m)
    then have m: "m = common (fst x) r" by (simp add: GetNumCommonChars_Inr)
    from Inr Cons.prems(1) have m0: "m = 0" by (auto split: if_splits)
    with Inr Cons.prems(1) have "UnorderedEdges_Find_loop c r (Suc j) = Inr (0, p)" by simp
    from Cons.IH [OF this] Cons.prems(2) m m0 show ?thesis by auto
  qed
qed

lemma UnorderedEdges_Find_loop_total:
  "r \<noteq> [] \<Longrightarrow> \<exists>k p. UnorderedEdges_Find_loop c r j = Inr (k, p)"
  by (induction c arbitrary: j) (auto simp: GetNumCommonChars_common)

lemma upper_bound_le: "upper_bound c r \<le> length c"
  by (induction c r rule: upper_bound.induct) auto

lemma upper_bound_before: "i < upper_bound c r \<Longrightarrow> \<not> r < fst (c ! i)"
proof (induction c r arbitrary: i rule: upper_bound.induct)
  case (1 x)
  then show ?case by simp
next
  case (2 k v kvs x)
  then show ?case by (cases i) (auto split: if_splits)
qed

lemma upper_bound_at: "upper_bound c r < length c \<Longrightarrow> r < fst (c ! upper_bound c r)"
  by (induction c r rule: upper_bound.induct) auto

lemma lex_between:
  fixes a b c :: string
  assumes "a < b" "b \<le> c" "first_of a = Some ch" "first_of c = Some ch"
  shows "first_of b = Some ch"
proof -
  from assms(3,4) obtain as cs where a: "a = ch # as" and c: "c = ch # cs"
    by (cases a; cases c) auto
  from assms(1) a obtain y ys where b: "b = y # ys" by (cases b) auto
  from assms(1) a b have "ch \<le> y" by auto
  moreover from assms(2) b c have "y \<le> ch" by (auto simp: list_le_def)
  ultimately show ?thesis using b by simp
qed

definition OrderedEdges_Find_result :: "(string \<times> edge) list \<Rightarrow> string \<Rightarrow> nat \<times> nat option" where
  "OrderedEdges_Find_result c r =
     (if c = [] then (0, None)
      else if upper_bound c r \<noteq> length c \<and> 0 < common (fst (snd (c ! upper_bound c r))) r
      then (common (fst (snd (c ! upper_bound c r))) r, Some (upper_bound c r))
      else if upper_bound c r = 0 then (0, None)
      else if 0 < common (fst (snd (c ! (upper_bound c r - 1)))) r
      then (common (fst (snd (c ! (upper_bound c r - 1)))) r, Some (upper_bound c r - 1))
      else (0, None))"

definition at_begin :: "(string \<times> edge) list \<Rightarrow> string \<Rightarrow> bool" where
  "at_begin c r \<longleftrightarrow>
     c \<noteq> [] \<and> upper_bound c r = 0 \<and> common (fst (snd (c ! 0))) r = 0"

lemma OrderedEdges_Find_nonempty:
  "r \<noteq> [] \<Longrightarrow> OrderedEdges_Find c r =
     (if at_begin c r then Inl undefined_behaviour else Inr (OrderedEdges_Find_result c r))"
  by (simp add: OrderedEdges_Find_def OrderedEdges_Find_result_def at_begin_def Let_def
      GetNumCommonChars_common)

lemma OrderedEdges_Find_empty:
  "OrderedEdges_Find c [] = (if c = [] then Inr (0, None) else Inl (runtime_error ''invalid remainder''))"
  by (simp add: OrderedEdges_Find_def Let_def GetNumCommonChars_def)

lemma OrderedEdges_Find_Inr:
  assumes "OrderedEdges_Find c r = Inr (k, p)"
  shows "(k, p) = OrderedEdges_Find_result c r"
proof (cases "r = []")
  case True
  with assms show ?thesis
    by (simp add: OrderedEdges_Find_empty OrderedEdges_Find_result_def split: if_splits)
next
  case False
  with assms show ?thesis by (simp add: OrderedEdges_Find_nonempty split: if_splits)
qed

lemma OrderedEdges_Find_result_empty: "OrderedEdges_Find_result [] r = (0, None)"
  by (simp add: OrderedEdges_Find_result_def)

lemma OrderedEdges_Find_result_first:
  "c \<noteq> [] \<Longrightarrow> upper_bound c r \<noteq> length c \<Longrightarrow> 0 < common (fst (snd (c ! upper_bound c r))) r \<Longrightarrow>
     OrderedEdges_Find_result c r = (common (fst (snd (c ! upper_bound c r))) r, Some (upper_bound c r))"
  by (simp add: OrderedEdges_Find_result_def)

lemma OrderedEdges_Find_result_begin:
  "c \<noteq> [] \<Longrightarrow> \<not> (upper_bound c r \<noteq> length c \<and> 0 < common (fst (snd (c ! upper_bound c r))) r) \<Longrightarrow>
     upper_bound c r = 0 \<Longrightarrow> OrderedEdges_Find_result c r = (0, None)"
  by (simp add: OrderedEdges_Find_result_def)

lemma OrderedEdges_Find_result_second:
  "c \<noteq> [] \<Longrightarrow> \<not> (upper_bound c r \<noteq> length c \<and> 0 < common (fst (snd (c ! upper_bound c r))) r) \<Longrightarrow>
     upper_bound c r \<noteq> 0 \<Longrightarrow>
     OrderedEdges_Find_result c r =
       (common (fst (snd (c ! (upper_bound c r - 1)))) r,
        if 0 < common (fst (snd (c ! (upper_bound c r - 1)))) r then Some (upper_bound c r - 1) else None)"
proof -
  assume a: "c \<noteq> []" "\<not> (upper_bound c r \<noteq> length c \<and> 0 < common (fst (snd (c ! upper_bound c r))) r)"
    "upper_bound c r \<noteq> 0"
  show ?thesis
  proof (cases "0 < common (fst (snd (c ! (upper_bound c r - 1)))) r")
    case True
    then show ?thesis unfolding OrderedEdges_Find_result_def if_not_P [OF a(2)] using a(1,3) by simp
  next
    case False
    then show ?thesis unfolding OrderedEdges_Find_result_def if_not_P [OF a(2)] using a(1,3) by simp
  qed
qed

lemma OrderedEdges_Find_result_pos:
  assumes "OrderedEdges_Find_result c r = (k, p)" "0 < k"
  shows "\<exists>i<length c. p = Some i \<and> k = common (fst (snd (c ! i))) r"
proof -
  let ?u = "upper_bound c r"
  have ule: "?u \<le> length c" by (rule upper_bound_le)
  from assms have c: "c \<noteq> []" by (auto simp: OrderedEdges_Find_result_empty)
  show ?thesis
  proof (cases "?u \<noteq> length c \<and> 0 < common (fst (snd (c ! ?u))) r")
    case True
    then have "OrderedEdges_Find_result c r = (common (fst (snd (c ! ?u))) r, Some ?u)"
      using c by (simp add: OrderedEdges_Find_result_first)
    with assms have "p = Some ?u" "k = common (fst (snd (c ! ?u))) r" by simp_all
    moreover from True ule have "?u < length c" by simp
    ultimately show ?thesis by blast
  next
    case False
    have u0: "?u \<noteq> 0"
    proof
      assume "?u = 0"
      from OrderedEdges_Find_result_begin [OF c False this] assms show False by simp
    qed
    from OrderedEdges_Find_result_second [OF c False u0] assms
    have "p = Some (?u - 1)" "k = common (fst (snd (c ! (?u - 1)))) r"
      by (simp_all split: if_splits)
    moreover from u0 ule have "?u - 1 < length c" by simp
    ultimately show ?thesis by blast
  qed
qed

lemma IndexedEdges_Find_Inr:
  assumes "IndexedEdges_Find c r = Inr (k, p)"
  shows "0 \<le> char0_minus_zero r \<and> nat (char0_minus_zero r) < length c \<and>
    (case c ! nat (char0_minus_zero r) of
       None \<Rightarrow> k = 0 \<and> p = None
     | Some e \<Rightarrow> k = common (fst e) r \<and> p = Some (nat (char0_minus_zero r)))"
proof -
  from assms have rng: "0 \<le> char0_minus_zero r" "char0_minus_zero r < int (length c)"
    by (simp_all add: IndexedEdges_Find_def Let_def split: if_splits)
  show ?thesis
  proof (cases "c ! nat (char0_minus_zero r)")
    case None
    with assms rng show ?thesis by (simp add: IndexedEdges_Find_def Let_def)
  next
    case (Some e)
    with assms rng obtain m where "GetNumCommonChars (fst e) r = Inr m" "k = m"
      "p = Some (nat (char0_minus_zero r))"
      by (cases "GetNumCommonChars (fst e) r") (simp_all add: IndexedEdges_Find_def Let_def)
    with Some rng show ?thesis by (simp add: GetNumCommonChars_Inr)
  qed
qed

lemma Edges_Find_pos:
  assumes "Edges_Find n r = Inr (k, p)" "0 < k"
  shows "\<exists>i e. p = Some i \<and> GetEdge n i = Some e \<and> k = common (fst e) r"
proof (cases n)
  case (UnorderedEdges c)
  with assms have "UnorderedEdges_Find_loop c r 0 = Inr (k, p)"
    by (simp add: UnorderedEdges_Find_def)
  from UnorderedEdges_Find_loop_pos [OF this assms(2)]
  obtain i where i: "i < length c" "p = Some i" "k = common (fst (c ! i)) r" by auto
  then have "GetEdge n i = Some (c ! i)" using UnorderedEdges by simp
  with i show ?thesis by blast
next
  case (OrderedEdges c)
  with assms have "OrderedEdges_Find c r = Inr (k, p)" by simp
  from OrderedEdges_Find_Inr [OF this] have "OrderedEdges_Find_result c r = (k, p)" by simp
  from OrderedEdges_Find_result_pos [OF this assms(2)]
  obtain i where i: "i < length c" "p = Some i" "k = common (fst (snd (c ! i))) r" by auto
  then have "GetEdge n i = Some (snd (c ! i))" using OrderedEdges by simp
  with i show ?thesis by blast
next
  case (IndexedEdges c)
  with assms have "IndexedEdges_Find c r = Inr (k, p)" by simp
  note F = IndexedEdges_Find_Inr [OF this]
  show ?thesis
  proof (cases "c ! nat (char0_minus_zero r)")
    case None
    with F assms(2) show ?thesis by simp
  next
    case (Some e)
    with F have "p = Some (nat (char0_minus_zero r))" "k = common (fst e) r"
      "GetEdge n (nat (char0_minus_zero r)) = Some e"
      using IndexedEdges by simp_all
    then show ?thesis by blast
  qed
qed

lemma Edges_Find_total:
  assumes "r \<noteq> []" "kind n = Indexed \<longrightarrow> node_ok n \<and> isdigit (hd r)"
    and "\<forall>c. n = OrderedEdges c \<longrightarrow> \<not> at_begin c r"
  shows "\<exists>k p. Edges_Find n r = Inr (k, p)"
proof (cases n)
  case (UnorderedEdges c)
  with assms(1) show ?thesis
    by (simp add: UnorderedEdges_Find_def UnorderedEdges_Find_loop_total)
next
  case (OrderedEdges c)
  with assms(1,3) show ?thesis
    by (simp add: OrderedEdges_Find_nonempty)
next
  case (IndexedEdges c)
  with assms have "length c = 10" "0 \<le> char0_minus_zero r \<and> char0_minus_zero r < 10"
    by (simp_all add: char0_range)
  with IndexedEdges assms(1) show ?thesis
    by (auto simp: IndexedEdges_Find_def Let_def GetNumCommonChars_common split: option.splits)
qed

lemma sorted_keys_nth:
  "sorted_wrt (<) (map fst c) \<Longrightarrow> i < j \<Longrightarrow> j < length c \<Longrightarrow> fst (c ! i) < fst (c ! j)"
  by (simp add: sorted_wrt_iff_nth_less)

lemma distinct_firsts_nth:
  "distinct (map f c) \<Longrightarrow> i < length c \<Longrightarrow> j < length c \<Longrightarrow> f (c ! i) = f (c ! j) \<Longrightarrow> i = j"
  by (metis length_map nth_eq_iff_index_eq nth_map)

lemma node_ok_IndexedD:
  "node_ok (IndexedEdges c) \<Longrightarrow> j < length c \<Longrightarrow> c ! j = Some e \<Longrightarrow> char0_minus_zero (fst e) = int j"
  unfolding node_ok.simps by blast

lemma OrderedEdges_Find_zero:
  assumes ok: "node_ok (OrderedEdges c)"
    and res: "OrderedEdges_Find_result c r = (0, p)"
    and x: "x \<in> set c"
  shows "common (fst (snd x)) r = 0"
proof (rule ccontr)
  assume "common (fst (snd x)) r \<noteq> 0"
  then have pos: "0 < common (fst (snd x)) r" by simp
  with common_pos_first [of "fst (snd x)" r]
  have "first_of (fst (snd x)) \<noteq> None \<and> first_of (fst (snd x)) = first_of r" by blast
  then obtain ch where ch: "first_of (fst (snd x)) = Some ch" "first_of r = Some ch"
    by (metis not_None_eq)
  from ok have srt: "sorted_wrt (<) (map fst c)"
    and keys: "\<And>y. y \<in> set c \<Longrightarrow> first_of (fst (snd y)) = first_of (fst y)"
    and dist: "distinct (map (first_of \<circ> fst \<circ> snd) c)" by simp_all
  from x obtain j where j: "j < length c" "c ! j = x" by (auto simp: in_set_conv_nth)
  from x have c: "c \<noteq> []" by auto
  from keys [OF x] ch have kx: "first_of (fst x) = Some ch" by simp
  let ?u = "upper_bound c r"
  have ule: "?u \<le> length c" by (rule upper_bound_le)
  have same: "i = j" if "i < length c" "first_of (fst (c ! i)) = Some ch" for i
  proof -
    from that(1) have "c ! i \<in> set c" by simp
    from keys [OF this] that(2) have "first_of (fst (snd (c ! i))) = Some ch" by simp
    with ch(1) j have "(first_of \<circ> fst \<circ> snd) (c ! i) = (first_of \<circ> fst \<circ> snd) (c ! j)" by simp
    from distinct_firsts_nth [OF dist that(1) j(1) this] show ?thesis .
  qed
  have first0: "\<not> (?u \<noteq> length c \<and> 0 < common (fst (snd (c ! ?u))) r)"
  proof
    assume "?u \<noteq> length c \<and> 0 < common (fst (snd (c ! ?u))) r"
    with OrderedEdges_Find_result_first [OF c] res show False by simp
  qed
  have second0: "common (fst (snd (c ! (?u - 1)))) r = 0" if "?u \<noteq> 0"
    using OrderedEdges_Find_result_second [OF c first0 that] res by simp
  show False
  proof (cases "r < fst x")
    case True
    have "\<not> j < ?u" using upper_bound_before [of j c r] j True by auto
    then have uj: "?u \<le> j" by simp
    with j have ult: "?u < length c" by simp
    have "?u = j"
    proof (rule ccontr)
      assume "?u \<noteq> j"
      with uj have "?u < j" by simp
      from sorted_keys_nth [OF srt this j(1)] j have "fst (c ! ?u) < fst x" by simp
      with upper_bound_at [OF ult] ch(2) kx have "first_of (fst (c ! ?u)) = Some ch"
        using lex_between [of r "fst (c ! ?u)" "fst x" ch] by simp
      from same [OF ult this] \<open>?u \<noteq> j\<close> show False by simp
    qed
    with first0 ult j pos show False by simp
  next
    case False
    then have xr: "fst x \<le> r" by simp
    have jl: "j < ?u"
    proof (rule ccontr)
      assume "\<not> j < ?u"
      then have uj: "?u \<le> j" by simp
      with j have ult: "?u < length c" by simp
      have "fst (c ! ?u) \<le> fst x"
      proof (cases "?u = j")
        case True
        with j show ?thesis by simp
      next
        case False
        with uj have "?u < j" by simp
        from sorted_keys_nth [OF srt this j(1)] j show ?thesis by simp
      qed
      with upper_bound_at [OF ult] xr show False by simp
    qed
    then have u0: "?u \<noteq> 0" by simp
    have "?u - 1 = j"
    proof (rule ccontr)
      assume ne: "?u - 1 \<noteq> j"
      with jl have lt: "j < ?u - 1" by simp
      from u0 ule have l1: "?u - 1 < length c" by simp
      from sorted_keys_nth [OF srt lt l1] j have a: "fst x < fst (c ! (?u - 1))" by simp
      from u0 have "?u - 1 < ?u" by simp
      from upper_bound_before [OF this] have b: "fst (c ! (?u - 1)) \<le> r" by simp
      from lex_between [OF a b kx ch(2)] have "first_of (fst (c ! (?u - 1))) = Some ch" .
      from same [OF l1 this] ne show False by simp
    qed
    with second0 [OF u0] j pos show False by simp
  qed
qed

lemma Edges_Find_zero:
  assumes "node_ok n" "Edges_Find n r = Inr (0, p)" "e \<in> set (edges_of n)"
  shows "common (fst e) r = 0"
proof (cases n)
  case (UnorderedEdges c)
  with assms(2) have "UnorderedEdges_Find_loop c r 0 = Inr (0, p)"
    by (simp add: UnorderedEdges_Find_def)
  from UnorderedEdges_Find_loop_zero [OF this] assms(3) UnorderedEdges show ?thesis by simp
next
  case (OrderedEdges c)
  with assms(2) have "OrderedEdges_Find c r = Inr (0, p)" by simp
  from OrderedEdges_Find_Inr [OF this] have res: "OrderedEdges_Find_result c r = (0, p)" by simp
  from assms(3) OrderedEdges obtain x where "x \<in> set c" "snd x = e" by auto
  with OrderedEdges_Find_zero [OF _ res, of x] assms(1) OrderedEdges show ?thesis by simp
next
  case (IndexedEdges c)
  with assms(2) have "IndexedEdges_Find c r = Inr (0, p)" by simp
  note F = IndexedEdges_Find_Inr [OF this]
  let ?i = "nat (char0_minus_zero r)"
  from assms(3) IndexedEdges have "Some e \<in> set c" by simp
  then obtain j where j: "j < length c" "c ! j = Some e" by (auto simp: in_set_conv_nth)
  with assms(1) IndexedEdges have cj: "char0_minus_zero (fst e) = int j"
    using node_ok_IndexedD [of c j e] by simp
  show ?thesis
  proof (rule ccontr)
    assume "common (fst e) r \<noteq> 0"
    then have pos: "0 < common (fst e) r" by simp
    then have "first_of (fst e) = first_of r" by (simp add: common_pos_first)
    from char0_first [OF this] cj have "?i = j" by simp
    with F j pos show False by simp
  qed
qed

lemma nodup:
  assumes "node_ok n" "GetEdge n i = Some e1" "GetEdge n j = Some e2"
    "first_of (fst e1) = first_of (fst e2)"
  shows "i = j"
proof (cases n)
  case (UnorderedEdges c)
  with assms(2,3) have ij: "i < length c" "j < length c" "c ! i = e1" "c ! j = e2"
    by (simp_all split: if_splits)
  with assms(4) have "(first_of \<circ> fst) (c ! i) = (first_of \<circ> fst) (c ! j)" by simp
  moreover from assms(1) UnorderedEdges have "distinct (map (first_of \<circ> fst) c)" by simp
  ultimately show ?thesis using ij(1,2) by (rule distinct_firsts_nth [rotated 3])
next
  case (OrderedEdges c)
  with assms(2,3) have ij: "i < length c" "j < length c" "snd (c ! i) = e1" "snd (c ! j) = e2"
    by (simp_all split: if_splits)
  with assms(4) have "(first_of \<circ> fst \<circ> snd) (c ! i) = (first_of \<circ> fst \<circ> snd) (c ! j)" by simp
  moreover from assms(1) OrderedEdges have "distinct (map (first_of \<circ> fst \<circ> snd) c)" by simp
  ultimately show ?thesis using ij(1,2) by (rule distinct_firsts_nth [rotated 3])
next
  case (IndexedEdges c)
  with assms(2,3) have ij: "i < length c" "j < length c" "c ! i = Some e1" "c ! j = Some e2"
    by (simp_all split: if_splits)
  from assms(1) IndexedEdges have ok: "node_ok (IndexedEdges c)" by simp
  from node_ok_IndexedD [OF ok ij(1,3)] node_ok_IndexedD [OF ok ij(2,4)] char0_first [OF assms(4)]
  show ?thesis by simp
qed

lemma nodup_edges:
  assumes "node_ok n" "e1 \<in> set (edges_of n)" "e2 \<in> set (edges_of n)"
    "first_of (fst e1) = first_of (fst e2)"
  shows "e1 = e2"
proof -
  from edges_GetEdge [OF assms(2)] obtain i where i: "GetEdge n i = Some e1" ..
  from edges_GetEdge [OF assms(3)] obtain j where j: "GetEdge n j = Some e2" ..
  from nodup [OF assms(1) i j assms(4)] i j show ?thesis by simp
qed

lemma Indexed_firsts_distinct:
  "(\<And>i e. i < length c \<Longrightarrow> c ! i = Some e \<Longrightarrow> g e = off + int i) \<Longrightarrow>
     distinct (map g (map the (filter (\<lambda>x. x \<noteq> None) c)))
     \<and> (\<forall>x\<in>set (map the (filter (\<lambda>x. x \<noteq> None) c)). off \<le> g x)"
proof (induction c arbitrary: off)
  case Nil
  then show ?case by simp
next
  case (Cons a c)
  define es where "es = map the (filter (\<lambda>x. x \<noteq> None) c)"
  have "g e = (off + 1) + int i" if "i < length c" "c ! i = Some e" for i e
    using Cons.prems [of "Suc i" e] that by simp
  from Cons.IH [OF this]
  have IH: "distinct (map g es)" "\<forall>x\<in>set es. off + 1 \<le> g x"
    unfolding es_def by blast+
  show ?case
  proof (cases a)
    case None
    then have "map the (filter (\<lambda>x. x \<noteq> None) (a # c)) = es" by (simp add: es_def)
    with IH show ?thesis by force
  next
    case (Some e)
    then have es: "map the (filter (\<lambda>x. x \<noteq> None) (a # c)) = e # es" by (simp add: es_def)
    from Cons.prems [of 0 e] Some have ge: "g e = off" by simp
    have "g e \<notin> g ` set es"
    proof
      assume "g e \<in> g ` set es"
      then obtain x where "x \<in> set es" "g x = g e" by auto
      with IH(2) ge show False by force
    qed
    with IH ge show ?thesis unfolding es by force
  qed
qed

lemma distinct_map_comp: "distinct (map (h \<circ> f) xs) \<Longrightarrow> distinct (map f xs)"
  by (induction xs) auto

lemma firsts_distinct: "node_ok n \<Longrightarrow> distinct (map (first_of \<circ> fst) (edges_of n))"
proof (cases n)
  case (UnorderedEdges c)
  assume "node_ok n"
  with UnorderedEdges show ?thesis by simp
next
  case (OrderedEdges c)
  assume "node_ok n"
  with OrderedEdges show ?thesis by (simp add: comp_assoc)
next
  case (IndexedEdges c)
  assume "node_ok n"
  with IndexedEdges have ok: "node_ok (IndexedEdges c)" by simp
  have "(char0_minus_zero \<circ> fst) e = 0 + int i" if "i < length c" "c ! i = Some e" for i e
    using node_ok_IndexedD [OF ok that] by simp
  from Indexed_firsts_distinct [of c "char0_minus_zero \<circ> fst" 0, OF this]
  have "distinct (map (char0_minus_zero \<circ> fst) (edges_of n))"
    using IndexedEdges by (simp add: edges_of.simps(3))
  moreover have "char0_minus_zero \<circ> fst = (\<lambda>x. (case x of None \<Rightarrow> 0 | Some c \<Rightarrow> of_char c) - of_char CHR ''0'') \<circ> (first_of \<circ> fst)"
    by (auto simp: fun_eq_iff char0_minus_zero_def first_of_def split: list.splits)
  ultimately show ?thesis using distinct_map_comp by metis
qed

subsection \<open>Writing an edge back\<close>

lemma map_update_same: "i < length c \<Longrightarrow> f x = f (c ! i) \<Longrightarrow> map f (c[i := x]) = map f c"
  by (simp add: map_update list_update_same_conv)

lemma PutEdge_node_ok:
  assumes "node_ok n" "GetEdge n i = Some e" "first_of (fst e') = first_of (fst e)"
  shows "node_ok (PutEdge n i e')"
proof (cases n)
  case (UnorderedEdges c)
  with assms(2) have i: "i < length c" "c ! i = e" by (simp_all split: if_splits)
  with assms(3) have "map (first_of \<circ> fst) (c[i := e']) = map (first_of \<circ> fst) c"
    by (intro map_update_same) simp_all
  with assms(1) UnorderedEdges show ?thesis by simp
next
  case (OrderedEdges c)
  with assms(2) have i: "i < length c" "snd (c ! i) = e" by (simp_all split: if_splits)
  let ?c' = "c[i := (fst (c ! i), e')]"
  from i have k: "map fst ?c' = map fst c" by (intro map_update_same) simp_all
  from i assms(3) have f: "map (first_of \<circ> fst \<circ> snd) ?c' = map (first_of \<circ> fst \<circ> snd) c"
    by (intro map_update_same) simp_all
  from assms(1) OrderedEdges have old: "\<And>y. y \<in> set c \<Longrightarrow> first_of (fst (snd y)) = first_of (fst y)"
    by simp
  have "first_of (fst (snd y)) = first_of (fst y)" if "y \<in> set ?c'" for y
  proof -
    from that set_update_subset_insert [of c i "(fst (c ! i), e')"]
    have "y = (fst (c ! i), e') \<or> y \<in> set c" by blast
    then show ?thesis
    proof
      assume "y = (fst (c ! i), e')"
      moreover from i have "c ! i \<in> set c" by simp
      ultimately show ?thesis using old [of "c ! i"] assms(3) i by simp
    next
      assume "y \<in> set c"
      then show ?thesis by (rule old)
    qed
  qed
  with assms(1) OrderedEdges k f show ?thesis by simp
next
  case (IndexedEdges c)
  with assms(2) have i: "i < length c" "c ! i = Some e" by (simp_all split: if_splits)
  from assms(1) IndexedEdges have ok: "node_ok (IndexedEdges c)" by simp
  have "char0_minus_zero (fst x) = int j" if "j < length (c[i := Some e'])" "c[i := Some e'] ! j = Some x" for j x
  proof (cases "j = i")
    case True
    with that i have "x = e'" by simp
    with node_ok_IndexedD [OF ok i] char0_first [OF assms(3)] True show ?thesis by simp
  next
    case False
    with that have "j < length c" "c ! j = Some x" by simp_all
    from node_ok_IndexedD [OF ok this] show ?thesis .
  qed
  with ok IndexedEdges show ?thesis by simp
qed

lemma PutEdge_edges:
  assumes "node_ok n" "GetEdge n i = Some e"
  shows "set (edges_of (PutEdge n i e')) = insert e' (set (edges_of n) - {e})"
proof (rule set_eqI)
  fix x
  have "x \<in> set (edges_of (PutEdge n i e')) \<longleftrightarrow> (\<exists>j. GetEdge (PutEdge n i e') j = Some x)"
    by (simp add: edges_of_GetEdge)
  also have "\<dots> \<longleftrightarrow> x = e' \<or> (\<exists>j. j \<noteq> i \<and> GetEdge n j = Some x)"
    unfolding GetEdge_PutEdge [OF assms(2)] by auto
  also have "(\<exists>j. j \<noteq> i \<and> GetEdge n j = Some x) \<longleftrightarrow> x \<in> set (edges_of n) - {e}"
  proof
    assume "\<exists>j. j \<noteq> i \<and> GetEdge n j = Some x"
    then obtain j where j: "j \<noteq> i" "GetEdge n j = Some x" by blast
    have "x \<noteq> e"
    proof
      assume "x = e"
      with nodup [OF assms(1) j(2) assms(2)] j(1) show False by simp
    qed
    with GetEdge_in_edges [OF j(2)] show "x \<in> set (edges_of n) - {e}" by simp
  next
    assume "x \<in> set (edges_of n) - {e}"
    then have "x \<in> set (edges_of n)" "x \<noteq> e" by simp_all
    from edges_GetEdge [OF this(1)] obtain j where j: "GetEdge n j = Some x" ..
    with assms(2) \<open>x \<noteq> e\<close> have "j \<noteq> i" by auto
    with j show "\<exists>j. j \<noteq> i \<and> GetEdge n j = Some x" by blast
  qed
  finally show "x \<in> set (edges_of (PutEdge n i e')) \<longleftrightarrow> x \<in> insert e' (set (edges_of n) - {e})"
    by simp
qed

subsection \<open>Add\<close>

lemma set_map_insert_subset: "set (map_insert k v c) \<subseteq> insert (k, v) (set c)"
proof (induction c)
  case Nil
  then show ?case by simp
next
  case (Cons x c)
  obtain k' v' where x: "x = (k', v')" by (cases x)
  show ?case
  proof (cases "k = k'")
    case True
    with x show ?thesis by auto
  next
    case ne: False
    show ?thesis
    proof (cases "k < k'")
      case True
      with ne x show ?thesis by simp
    next
      case False
      with ne x Cons.IH show ?thesis by auto
    qed
  qed
qed

lemma set_map_insert_new: "k \<notin> fst ` set c \<Longrightarrow> set (map_insert k v c) = insert (k, v) (set c)"
proof (induction c)
  case Nil
  then show ?case by simp
next
  case (Cons x c)
  obtain k' v' where x: "x = (k', v')" by (cases x)
  from Cons.prems x have ne: "k \<noteq> k'" and nin: "k \<notin> fst ` set c" by auto
  from Cons.IH [OF nin] ne x show ?case
    by (cases "k < k'") (simp_all add: insert_commute)
qed

lemma sorted_map_insert:
  "sorted_wrt (<) (map fst c) \<Longrightarrow> sorted_wrt (<) (map fst (map_insert k v c))"
proof (induction c)
  case Nil
  then show ?case by simp
next
  case (Cons x c)
  obtain k' v' where x: "x = (k', v')" by (cases x)
  from Cons.prems x have lt: "\<And>y. y \<in> set c \<Longrightarrow> k' < fst y" and srt: "sorted_wrt (<) (map fst c)"
    by auto
  show ?case
  proof (cases "k = k'")
    case True
    with Cons.prems x show ?thesis by simp
  next
    case ne: False
    show ?thesis
    proof (cases "k < k'")
      case True
      with lt have "\<And>y. y \<in> set c \<Longrightarrow> k < fst y" by force
      with True ne Cons.prems x show ?thesis by auto
    next
      case False
      with ne have "k' < k" by simp
      with lt have "\<And>y. y \<in> set (map_insert k v c) \<Longrightarrow> k' < fst y"
        using set_map_insert_subset [of k v c] by auto
      with False ne x Cons.IH [OF srt] show ?thesis by auto
    qed
  qed
qed

lemma distinct_map_insert:
  "k \<notin> fst ` set c \<Longrightarrow> g (k, v) \<notin> g ` set c \<Longrightarrow> distinct (map g c) \<Longrightarrow>
     distinct (map g (map_insert k v c))"
proof (induction c)
  case Nil
  then show ?case by simp
next
  case (Cons x c)
  obtain k' v' where x: "x = (k', v')" by (cases x)
  from Cons.prems x have ne: "k \<noteq> k'" by auto
  from Cons.prems have IH: "distinct (map g (map_insert k v c))" by (intro Cons.IH) auto
  from Cons.prems have "k \<notin> fst ` set c" by auto
  with Cons.prems have "g x \<notin> g ` set (map_insert k v c)"
    by (auto simp: set_map_insert_new)
  with Cons.prems IH ne x show ?case by auto
qed

lemma Edges_Add_ok_U:
  assumes UnorderedEdges: "n = UnorderedEdges c" and ok: "node_ok n" and add: "Edges_Add n e = Inr n'"
    and new: "\<And>x. x \<in> set (edges_of n) \<Longrightarrow> first_of (fst x) \<noteq> first_of (fst e)"
  shows "node_ok n' \<and> set (edges_of n') = insert e (set (edges_of n)) \<and> kind n' = kind n"
proof -
  from UnorderedEdges add have n': "n' = UnorderedEdges (c @ [e])" by (simp add: UnorderedEdges_Add_def)
  have "(first_of \<circ> fst) e \<notin> (first_of \<circ> fst) ` set c"
  proof
    assume "(first_of \<circ> fst) e \<in> (first_of \<circ> fst) ` set c"
    then obtain y where y: "y \<in> set c" "first_of (fst y) = first_of (fst e)" by auto
    then have "y \<in> set (edges_of n)" using UnorderedEdges by simp
    from new [OF this] y(2) show False by simp
  qed
  moreover from ok UnorderedEdges have "distinct (map (first_of \<circ> fst) c)" by simp
  ultimately have "node_ok (UnorderedEdges (c @ [e]))" by simp
  then show ?thesis unfolding n' UnorderedEdges by simp
qed

lemma Edges_Add_ok_O:
  assumes OrderedEdges: "n = OrderedEdges c" and ok: "node_ok n" and add: "Edges_Add n e = Inr n'"
    and new: "\<And>x. x \<in> set (edges_of n) \<Longrightarrow> first_of (fst x) \<noteq> first_of (fst e)"
  shows "node_ok n' \<and> set (edges_of n') = insert e (set (edges_of n)) \<and> kind n' = kind n"
proof -
  from OrderedEdges add have n': "n' = OrderedEdges (map_insert (fst e) e c)" by (simp add: OrderedEdges_Add_def)
  from ok OrderedEdges have srt: "sorted_wrt (<) (map fst c)"
    and keys: "\<And>y. y \<in> set c \<Longrightarrow> first_of (fst (snd y)) = first_of (fst y)"
    and dist: "distinct (map (first_of \<circ> fst \<circ> snd) c)" by simp_all
  have nk: "fst e \<notin> fst ` set c"
  proof
    assume "fst e \<in> fst ` set c"
    then obtain y where y: "y \<in> set c" "fst y = fst e" by auto
    then have "snd y \<in> set (edges_of n)" using OrderedEdges by simp
    from new [OF this] keys [OF y(1)] y(2) show False by simp
  qed
  then have s: "set (map_insert (fst e) e c) = insert (fst e, e) (set c)"
    by (rule set_map_insert_new)
  have "(first_of \<circ> fst \<circ> snd) (fst e, e) \<notin> (first_of \<circ> fst \<circ> snd) ` set c"
  proof
    assume "(first_of \<circ> fst \<circ> snd) (fst e, e) \<in> (first_of \<circ> fst \<circ> snd) ` set c"
    then obtain y where y: "y \<in> set c" "first_of (fst (snd y)) = first_of (fst e)" by auto
    then have "snd y \<in> set (edges_of n)" using OrderedEdges by simp
    from new [OF this] y(2) show False by simp
  qed
  from distinct_map_insert [OF nk this dist]
  have d: "distinct (map (first_of \<circ> fst \<circ> snd) (map_insert (fst e) e c))" .
  have k': "first_of (fst (snd y)) = first_of (fst y)" if "y \<in> set (map_insert (fst e) e c)" for y
  proof -
    from that s have "y = (fst e, e) \<or> y \<in> set c" by blast
    then show ?thesis
    proof
      assume "y = (fst e, e)"
      then show ?thesis by simp
    next
      assume "y \<in> set c"
      then show ?thesis by (rule keys)
    qed
  qed
  from sorted_map_insert [OF srt] d k' have "node_ok (OrderedEdges (map_insert (fst e) e c))"
    unfolding node_ok.simps by blast
  moreover have "set (edges_of (OrderedEdges (map_insert (fst e) e c))) = insert e (set (edges_of (OrderedEdges c)))"
    unfolding edges_of.simps set_map s by simp
  ultimately show ?thesis using n' OrderedEdges by simp
qed

lemma IndexedEdges_Add_Inr:
  assumes "IndexedEdges_Add c e = Inr c'"
  shows "0 \<le> char0_minus_zero (fst e) \<and> nat (char0_minus_zero (fst e)) < length c
         \<and> c' = c[nat (char0_minus_zero (fst e)) := Some e]"
proof -
  let ?i = "char0_minus_zero (fst e)"
  have rng: "0 \<le> ?i \<and> ?i < int (length c)"
  proof (rule ccontr)
    assume "\<not> (0 \<le> ?i \<and> ?i < int (length c))"
    then have "IndexedEdges_Add c e = Inl undefined_behaviour"
      unfolding IndexedEdges_Add_def Let_def by (rule if_not_P)
    with assms show False by simp
  qed
  then have "IndexedEdges_Add c e = Inr (c[nat ?i := Some e])"
    unfolding IndexedEdges_Add_def Let_def by (rule if_P)
  with assms have "c' = c[nat ?i := Some e]" by simp
  moreover from rng have "nat ?i < length c" by linarith
  ultimately show ?thesis using rng by blast
qed

lemma slots_update_new:
  assumes "i < length c" "c ! i = None"
  shows "{x. Some x \<in> set (c[i := Some e])} = insert e {x. Some x \<in> set c}"
proof (rule set_eqI)
  fix x
  have "Some x \<in> set (c[i := Some e]) \<longleftrightarrow> x = e \<or> Some x \<in> set c"
  proof
    assume "Some x \<in> set (c[i := Some e])"
    then have "Some x \<in> insert (Some e) (set c)"
      using set_update_subset_insert [of c i "Some e"] by blast
    then show "x = e \<or> Some x \<in> set c" by simp
  next
    assume "x = e \<or> Some x \<in> set c"
    then show "Some x \<in> set (c[i := Some e])"
    proof
      assume "x = e"
      with assms(1) show ?thesis by (simp add: set_update_memI)
    next
      assume "Some x \<in> set c"
      then obtain j where j: "j < length c" "c ! j = Some x" by (auto simp: in_set_conv_nth)
      with assms(2) have "j \<noteq> i" by auto
      with j have "c[i := Some e] ! j = Some x" "j < length (c[i := Some e])" by simp_all
      then show ?thesis by (metis nth_mem)
    qed
  qed
  then show "x \<in> {x. Some x \<in> set (c[i := Some e])} \<longleftrightarrow> x \<in> insert e {x. Some x \<in> set c}"
    by simp
qed

lemma Edges_Add_ok_I:
  assumes IndexedEdges: "n = IndexedEdges c" and ok: "node_ok n" and add: "Edges_Add n e = Inr n'"
    and new: "\<And>x. x \<in> set (edges_of n) \<Longrightarrow> first_of (fst x) \<noteq> first_of (fst e)"
  shows "node_ok n' \<and> set (edges_of n') = insert e (set (edges_of n)) \<and> kind n' = kind n"
proof -
  let ?i = "nat (char0_minus_zero (fst e))"
  from add IndexedEdges obtain c' where c': "IndexedEdges_Add c e = Inr c'" "n' = IndexedEdges c'"
    by (cases "IndexedEdges_Add c e") simp_all
  from IndexedEdges_Add_Inr [OF c'(1)]
  have pos: "0 \<le> char0_minus_zero (fst e)" and il: "?i < length c" and cu: "c' = c[?i := Some e]"
    by blast+
  from ok IndexedEdges have okc: "node_ok (IndexedEdges c)" by simp
  have none: "c ! ?i = None"
  proof (cases "c ! ?i")
    case None
    then show ?thesis .
  next
    case (Some y)
    from node_ok_IndexedD [OF okc il Some] pos have eq: "char0_minus_zero (fst y) = char0_minus_zero (fst e)"
      by simp
    from pos eq have "0 \<le> char0_minus_zero (fst y)" by simp
    from char0_inj [OF eq this] have f: "first_of (fst y) = first_of (fst e)" .
    from Some il have "Some y \<in> set c" by (metis nth_mem)
    then have "y \<in> set (edges_of n)" unfolding IndexedEdges edges_of_Indexed by simp
    from new [OF this] f show ?thesis by simp
  qed
  have slot: "char0_minus_zero (fst x) = int j" if "j < length c'" "c' ! j = Some x" for j x
  proof (cases "j = ?i")
    case True
    with that il cu have "x = e" by simp
    with True pos show ?thesis by simp
  next
    case False
    with that cu have "j < length c" "c ! j = Some x" by simp_all
    from node_ok_IndexedD [OF okc this] show ?thesis .
  qed
  from okc cu have "length c' = 10" by simp
  with slot have ok': "node_ok (IndexedEdges c')" unfolding node_ok.simps by blast
  from slots_update_new [OF il none] cu
  have "set (edges_of (IndexedEdges c')) = insert e (set (edges_of (IndexedEdges c)))"
    unfolding edges_of_Indexed by simp
  with ok' show ?thesis unfolding c'(2) IndexedEdges by simp
qed

lemma Edges_Add_ok:
  assumes ok: "node_ok n" and add: "Edges_Add n e = Inr n'"
    and new: "\<And>x. x \<in> set (edges_of n) \<Longrightarrow> first_of (fst x) \<noteq> first_of (fst e)"
  shows "node_ok n' \<and> set (edges_of n') = insert e (set (edges_of n)) \<and> kind n' = kind n"
proof (cases n)
  case (UnorderedEdges c)
  from Edges_Add_ok_U [OF this ok add new] show ?thesis .
next
  case (OrderedEdges c)
  from Edges_Add_ok_O [OF this ok add new] show ?thesis .
next
  case (IndexedEdges c)
  from Edges_Add_ok_I [OF this ok add new] show ?thesis .
qed

lemma Edges_Add_total:
  assumes "kind n = Indexed \<longrightarrow> node_ok n \<and> fst e \<noteq> [] \<and> isdigit (hd (fst e))"
  shows "\<exists>n'. Edges_Add n e = Inr n'"
proof (cases n)
  case (UnorderedEdges c)
  then show ?thesis by simp
next
  case (OrderedEdges c)
  then show ?thesis by simp
next
  case (IndexedEdges c)
  with assms have "length c = 10" "0 \<le> char0_minus_zero (fst e) \<and> char0_minus_zero (fst e) < 10"
    by (simp_all add: char0_range)
  with IndexedEdges show ?thesis by (simp add: IndexedEdges_Add_def Let_def)
qed

lemma Edges_Add_Indexed:
  assumes "Edges_Add n e = Inr n'" "kind n = Indexed"
  shows "fst e \<noteq> []"
proof (cases n)
  case (IndexedEdges c)
  with assms(1) have "0 \<le> char0_minus_zero (fst e)"
    by (auto simp: IndexedEdges_Add_def Let_def split: if_splits)
  then show ?thesis by (auto simp: char0_minus_zero_def)
qed (use assms(2) in simp_all)

subsection \<open>New nodes\<close>

lemma Node_new_simps [simp]:
  "node_ok (Node_new E)" "edges_of (Node_new E) = []" "kind (Node_new E) = E"
  by (cases E; simp add: Node_new_def edges_of.simps(3))+

subsection \<open>Node(firstEdge, secondEdge)\<close>

lemma Node_new2_Some:
  "Node_new2 E (Some f) (Some s) =
     (case Edges_Add (Node_new E) f of Inl e \<Rightarrow> Inl e | Inr n \<Rightarrow> Edges_Add n s)"
  by (simp add: Node_new2_def)

lemma Node_new2_ok:
  assumes "Node_new2 E (Some f) (Some s) = Inr m" "first_of (fst f) \<noteq> first_of (fst s)"
  shows "node_ok m \<and> set (edges_of m) = {f, s} \<and> kind m = E"
proof -
  from assms(1) obtain n where n: "Edges_Add (Node_new E) f = Inr n" "Edges_Add n s = Inr m"
    unfolding Node_new2_Some by (cases "Edges_Add (Node_new E) f") simp_all
  have "node_ok n \<and> set (edges_of n) = insert f (set (edges_of (Node_new E))) \<and> kind n = kind (Node_new E)"
    by (rule Edges_Add_ok [OF _ n(1)]) simp_all
  then have 1: "node_ok n" "set (edges_of n) = {f}" "kind n = E" by simp_all
  have "node_ok m \<and> set (edges_of m) = insert s (set (edges_of n)) \<and> kind m = kind n"
  proof (rule Edges_Add_ok [OF 1(1) n(2)])
    fix x assume "x \<in> set (edges_of n)"
    with 1(2) have "x = f" by simp
    with assms(2) show "first_of (fst x) \<noteq> first_of (fst s)" by simp
  qed
  with 1 show ?thesis by auto
qed

lemma Node_new2_total:
  assumes "E = Indexed \<longrightarrow> fst f \<noteq> [] \<and> isdigit (hd (fst f)) \<and> fst s \<noteq> [] \<and> isdigit (hd (fst s))"
    and "first_of (fst f) \<noteq> first_of (fst s)"
  shows "\<exists>m. Node_new2 E (Some f) (Some s) = Inr m"
proof -
  have "\<exists>n. Edges_Add (Node_new E) f = Inr n"
    by (rule Edges_Add_total) (use assms(1) in simp)
  then obtain n where n: "Edges_Add (Node_new E) f = Inr n" ..
  have "node_ok n \<and> set (edges_of n) = insert f (set (edges_of (Node_new E))) \<and> kind n = kind (Node_new E)"
    by (rule Edges_Add_ok [OF _ n]) simp_all
  then have 1: "node_ok n" "kind n = E" by simp_all
  have "\<exists>m. Edges_Add n s = Inr m"
    by (rule Edges_Add_total) (use assms(1) 1 in simp)
  then obtain m where "Edges_Add n s = Inr m" ..
  with n show ?thesis unfolding Node_new2_Some by simp
qed

subsection \<open>Edge::Eat\<close>

lemma Edge_Eat_full:
  assumes "0 < k" "k = length (fst e)" "k \<le> length r"
  shows "Edge_Eat E k e r u = Inr (e, True, drop k r, u)"
proof -
  from assms have "\<not> (k = 0 \<or> k > min (length (fst e)) (length r))" "r \<noteq> []" by auto
  with assms show ?thesis unfolding Edge_Eat_def Let_def by simp
qed

lemma Edge_Eat_split:
  assumes "0 < k" "k < length (fst e)" "k \<le> length r"
  shows "Edge_Eat E k e r u =
     (case Node_new2 E (Some (drop k (fst e), snd e)) (Some (drop k r, Node_new E)) of
        Inl x \<Rightarrow> Inl x
      | Inr m \<Rightarrow> Inr ((take k (fst e), m), False, [], True))"
proof -
  from assms have "\<not> (k = 0 \<or> k > min (length (fst e)) (length r))" "r \<noteq> []" "k \<noteq> length (fst e)"
    by auto
  then show ?thesis unfolding Edge_Eat_def Let_def Edge_new_def by simp
qed

subsection \<open>Node::Eat\<close>

lemma Node_Eat_miss:
  assumes "r \<noteq> []" "Edges_Find n r = Inr (0, p)"
  shows "Node_Eat E n r u =
     (case Edges_Add n (r, Node_new E) of Inl x \<Rightarrow> Inl x | Inr n' \<Rightarrow> Inr (n', None, [], True))"
  using assms unfolding Node_Eat_def Edge_new_def by simp

lemma Node_Eat_found:
  assumes "r \<noteq> []" "Edges_Find n r = Inr (k, Some i)" "0 < k" "GetEdge n i = Some e"
  shows "Node_Eat E n r u =
     (case Edge_Eat E k e r u of
        Inl x \<Rightarrow> Inl x
      | Inr (e', follow, r', u') \<Rightarrow>
          if \<not> follow \<and> r' \<noteq> []
          then (case Edges_Add (PutEdge n i e') (Edge_new E r' None) of
                  Inl x \<Rightarrow> Inl x
                | Inr n'' \<Rightarrow> Inr (n'', None, [], True))
          else Inr (PutEdge n i e', if follow then Some i else None, r', u'))"
  using assms unfolding Node_Eat_def
  by (cases "Edge_Eat E k e r u") (auto split: prod.splits)

lemma Node_Eat_follow_eq:
  assumes "r \<noteq> []" "Edges_Find n r = Inr (k, Some i)" "0 < k" "GetEdge n i = Some e"
    "k = length (fst e)" "k \<le> length r"
  shows "Node_Eat E n r u = Inr (n, Some i, drop k r, u)"
  unfolding Node_Eat_found [OF assms(1-4)] Edge_Eat_full [OF assms(3,5,6)]
  using PutEdge_same [OF assms(4)] by simp

lemma Node_Eat_split_eq:
  assumes "r \<noteq> []" "Edges_Find n r = Inr (k, Some i)" "0 < k" "GetEdge n i = Some e"
    "k < length (fst e)" "k \<le> length r"
  shows "Node_Eat E n r u =
     (case Node_new2 E (Some (drop k (fst e), snd e)) (Some (drop k r, Node_new E)) of
        Inl x \<Rightarrow> Inl x
      | Inr m \<Rightarrow> Inr (PutEdge n i (take k (fst e), m), None, [], True))"
  unfolding Node_Eat_found [OF assms(1-4)] Edge_Eat_split [OF assms(3,5,6)]
  by (cases "Node_new2 E (Some (drop k (fst e), snd e)) (Some (drop k r, Node_new E))") simp_all

subsection \<open>One round of the loop of IsUnique\<close>

lemma IsUnique_loop_Nil: "IsUnique_loop E n [] u = Inr (n, u)"
  by (simp add: IsUnique_loop.simps)

lemma IsUnique_loop_fail:
  assumes "r \<noteq> []" "Edges_Find n r = Inl x"
  shows "IsUnique_loop E n r u = Inl x"
proof -
  from assms have "Node_Eat E n r u = Inl x" unfolding Node_Eat_def by simp
  with assms(1) show ?thesis by (subst IsUnique_loop.simps) simp
qed

lemma IsUnique_loop_miss:
  assumes "r \<noteq> []" "Edges_Find n r = Inr (0, p)"
  shows "IsUnique_loop E n r u =
     (case Edges_Add n (r, Node_new E) of Inl x \<Rightarrow> Inl x | Inr n' \<Rightarrow> Inr (n', True))"
proof (cases "Edges_Add n (r, Node_new E)")
  case (Inl x)
  with Node_Eat_miss [OF assms, of E u] have "Node_Eat E n r u = Inl x" by simp
  with assms(1) Inl show ?thesis by (subst IsUnique_loop.simps) simp
next
  case (Inr n')
  with Node_Eat_miss [OF assms, of E u] have "Node_Eat E n r u = Inr (n', None, [], True)" by simp
  with assms(1) Inr show ?thesis by (subst IsUnique_loop.simps) simp
qed

lemma IsUnique_loop_follow:
  assumes "r \<noteq> []" "Edges_Find n r = Inr (k, Some i)" "0 < k" "GetEdge n i = Some e"
    "k = length (fst e)" "k \<le> length r"
  shows "IsUnique_loop E n r u =
     (case IsUnique_loop E (snd e) (drop k r) u of
        Inl x \<Rightarrow> Inl x
      | Inr (c', b) \<Rightarrow> Inr (PutEdge n i (fst e, c'), b))"
proof -
  note N = Node_Eat_follow_eq [OF assms, of E u]
  obtain l c where e: "e = (l, c)" by (cases e)
  show ?thesis
    by (subst IsUnique_loop.simps) (simp add: N assms(1,4) e split: sum.splits prod.splits)
qed

lemma IsUnique_loop_split:
  assumes "r \<noteq> []" "Edges_Find n r = Inr (k, Some i)" "0 < k" "GetEdge n i = Some e"
    "k < length (fst e)" "k \<le> length r"
  shows "IsUnique_loop E n r u =
     (case Node_new2 E (Some (drop k (fst e), snd e)) (Some (drop k r, Node_new E)) of
        Inl x \<Rightarrow> Inl x
      | Inr m \<Rightarrow> Inr (PutEdge n i (take k (fst e), m), True))"
proof (cases "Node_new2 E (Some (drop k (fst e), snd e)) (Some (drop k r, Node_new E))")
  case (Inl x)
  with Node_Eat_split_eq [OF assms, of E u] have "Node_Eat E n r u = Inl x" by simp
  with assms(1) Inl show ?thesis by (subst IsUnique_loop.simps) simp
next
  case (Inr m)
  with Node_Eat_split_eq [OF assms, of E u]
  have "Node_Eat E n r u = Inr (PutEdge n i (take k (fst e), m), None, [], True)" by simp
  with assms(1) Inr show ?thesis by (subst IsUnique_loop.simps) simp
qed

text \<open>The four ways a round can go, as one case analysis.\<close>

lemma IsUnique_loop_cases [consumes 1, case_names fail miss follow split]:
  assumes "r \<noteq> []"
    and "\<And>x. Edges_Find n r = Inl x \<Longrightarrow> IsUnique_loop E n r u = Inl x \<Longrightarrow> P"
    and "\<And>p. Edges_Find n r = Inr (0, p) \<Longrightarrow>
           IsUnique_loop E n r u =
             (case Edges_Add n (r, Node_new E) of Inl x \<Rightarrow> Inl x | Inr n' \<Rightarrow> Inr (n', True)) \<Longrightarrow> P"
    and "\<And>k i e. Edges_Find n r = Inr (k, Some i) \<Longrightarrow> GetEdge n i = Some e \<Longrightarrow> 0 < k \<Longrightarrow>
           k = common (fst e) r \<Longrightarrow> k = length (fst e) \<Longrightarrow> k \<le> length r \<Longrightarrow>
           IsUnique_loop E n r u =
             (case IsUnique_loop E (snd e) (drop k r) u of
                Inl x \<Rightarrow> Inl x
              | Inr (c', b) \<Rightarrow> Inr (PutEdge n i (fst e, c'), b)) \<Longrightarrow> P"
    and "\<And>k i e. Edges_Find n r = Inr (k, Some i) \<Longrightarrow> GetEdge n i = Some e \<Longrightarrow> 0 < k \<Longrightarrow>
           k = common (fst e) r \<Longrightarrow> k < length (fst e) \<Longrightarrow> k \<le> length r \<Longrightarrow>
           IsUnique_loop E n r u =
             (case Node_new2 E (Some (drop k (fst e), snd e)) (Some (drop k r, Node_new E)) of
                Inl x \<Rightarrow> Inl x
              | Inr m \<Rightarrow> Inr (PutEdge n i (take k (fst e), m), True)) \<Longrightarrow> P"
  shows P
proof (cases "Edges_Find n r")
  case (Inl x)
  from assms(2) [OF Inl IsUnique_loop_fail [OF assms(1) Inl]] show ?thesis .
next
  case (Inr kp)
  obtain k p where kp: "kp = (k, p)" by (cases kp)
  show ?thesis
  proof (cases "k = 0")
    case True
    with Inr kp have F: "Edges_Find n r = Inr (0, p)" by simp
    from assms(3) [OF F IsUnique_loop_miss [OF assms(1) F]] show ?thesis .
  next
    case False
    then have k: "0 < k" by simp
    from Inr kp have F: "Edges_Find n r = Inr (k, p)" by simp
    from Edges_Find_pos [OF F k] obtain i e where
      ie: "p = Some i" "GetEdge n i = Some e" "k = common (fst e) r" by blast
    from F ie(1) have F': "Edges_Find n r = Inr (k, Some i)" by simp
    from ie(3) have le: "k \<le> length (fst e)" "k \<le> length r" by (simp_all add: common_le)
    show ?thesis
    proof (cases "k = length (fst e)")
      case True
      from assms(4) [OF F' ie(2) k ie(3) True le(2)
          IsUnique_loop_follow [OF assms(1) F' k ie(2) True le(2)]] show ?thesis .
    next
      case False
      with le have lt: "k < length (fst e)" by simp
      from assms(5) [OF F' ie(2) k ie(3) lt le(2)
          IsUnique_loop_split [OF assms(1) F' k ie(2) lt le(2)]] show ?thesis .
    qed
  qed
qed

subsection \<open>No call raises\<close>

lemma UnorderedEdges_Find_loop_no_raise:
  "r \<noteq> [] \<Longrightarrow> UnorderedEdges_Find_loop c r j \<noteq> Inl x"
  by (induction c arbitrary: j) (simp_all add: GetNumCommonChars_common)

lemma Edges_Find_no_raise:
  assumes "r \<noteq> []" "Edges_Find n r = Inl x"
  shows "x = undefined_behaviour"
proof (cases n)
  case (UnorderedEdges c)
  with assms UnorderedEdges_Find_loop_no_raise [OF assms(1), of c 0 x] show ?thesis
    by (simp add: UnorderedEdges_Find_def)
next
  case (OrderedEdges c)
  with assms show ?thesis by (simp add: OrderedEdges_Find_nonempty split: if_splits)
next
  case (IndexedEdges c)
  show ?thesis
  proof (cases "0 \<le> char0_minus_zero r \<and> char0_minus_zero r < int (length c)")
    case True
    with assms IndexedEdges show ?thesis
      by (cases "c ! nat (char0_minus_zero r)")
         (simp_all add: IndexedEdges_Find_def Let_def GetNumCommonChars_common)
  next
    case False
    then have "IndexedEdges_Find c r = Inl undefined_behaviour"
      unfolding IndexedEdges_Find_def Let_def by (rule if_not_P)
    with assms IndexedEdges show ?thesis by simp
  qed
qed

lemma Edges_Add_no_raise:
  assumes "Edges_Add n e = Inl x"
  shows "x = undefined_behaviour \<and> kind n = Indexed"
proof (cases n)
  case (IndexedEdges c)
  show ?thesis
  proof (cases "0 \<le> char0_minus_zero (fst e) \<and> char0_minus_zero (fst e) < int (length c)")
    case True
    then have "IndexedEdges_Add c e = Inr (c[nat (char0_minus_zero (fst e)) := Some e])"
      unfolding IndexedEdges_Add_def Let_def by (rule if_P)
    with assms IndexedEdges show ?thesis by simp
  next
    case False
    then have "IndexedEdges_Add c e = Inl undefined_behaviour"
      unfolding IndexedEdges_Add_def Let_def by (rule if_not_P)
    with assms IndexedEdges show ?thesis by simp
  qed
qed (use assms in simp_all)

lemma Node_new2_no_raise:
  assumes "Node_new2 E (Some f) (Some s) = Inl x"
  shows "x = undefined_behaviour"
proof (cases "Edges_Add (Node_new E) f")
  case (Inl y)
  with assms have "x = y" by (simp add: Node_new2_Some)
  with Edges_Add_no_raise [OF Inl] show ?thesis by simp
next
  case (Inr n)
  with assms have "Edges_Add n s = Inl x" by (simp add: Node_new2_Some)
  from Edges_Add_no_raise [OF this] show ?thesis by simp
qed

lemma IsUnique_loop_no_raise:
  "IsUnique_loop E n r u = Inl x \<Longrightarrow> x = undefined_behaviour"
proof (induction "length r" arbitrary: n r u rule: less_induct)
  case less
  show ?case
  proof (cases "r = []")
    case True
    with less.prems show ?thesis by (simp add: IsUnique_loop_Nil)
  next
    case False
    then show ?thesis
    proof (cases rule: IsUnique_loop_cases [where E = E and n = n and r = r and u = u])
      case (fail y)
      with less.prems have "Edges_Find n r = Inl x" by simp
      from Edges_Find_no_raise [OF False this] show ?thesis .
    next
      case (miss p)
      with less.prems have "Edges_Add n (r, Node_new E) = Inl x"
        by (cases "Edges_Add n (r, Node_new E)") simp_all
      from Edges_Add_no_raise [OF this] show ?thesis by simp
    next
      case (follow k i e)
      with less.prems have "IsUnique_loop E (snd e) (drop k r) u = Inl x"
        by (cases "IsUnique_loop E (snd e) (drop k r) u") (simp_all split: prod.splits)
      moreover from follow have "length (drop k r) < length r" by simp
      ultimately show ?thesis by (rule less.hyps [rotated])
    next
      case (split k i e)
      with less.prems
      have "Node_new2 E (Some (drop k (fst e), snd e)) (Some (drop k r, Node_new E)) = Inl x"
        by (cases "Node_new2 E (Some (drop k (fst e), snd e)) (Some (drop k r, Node_new E))") simp_all
      from Node_new2_no_raise [OF this] show ?thesis .
    qed
  qed
qed

subsection \<open>What every tree keeps, whatever the lengths of the values\<close>

function ginv :: "Edges \<Rightarrow> node \<Rightarrow> bool" where
  "ginv E n = (kind n = E \<and> node_ok n \<and> (\<forall>e\<in>set (edges_of n). ginv E (snd e)))"
  by pat_completeness auto
termination
  by (relation "measure (\<lambda>(E, n). size n)") (auto dest: size_edges_of)

declare ginv.simps [simp del]

lemma ginv_Node_new [simp]: "ginv E (Node_new E)"
  by (subst ginv.simps) simp

lemma ginvD:
  assumes "ginv E n"
  shows "kind n = E" "node_ok n" "\<And>e. e \<in> set (edges_of n) \<Longrightarrow> ginv E (snd e)"
  using assms by (subst (asm) ginv.simps, blast)+

lemma ginvI:
  "kind n = E \<Longrightarrow> node_ok n \<Longrightarrow> (\<And>e. e \<in> set (edges_of n) \<Longrightarrow> ginv E (snd e)) \<Longrightarrow> ginv E n"
  by (subst ginv.simps) blast

lemma Find_zero_new:
  assumes "node_ok n" "r \<noteq> []" "Edges_Find n r = Inr (0, p)" "x \<in> set (edges_of n)"
  shows "first_of (fst x) \<noteq> first_of r"
proof -
  from Edges_Find_zero [OF assms(1,3,4)] have "first_of (fst x) = None \<or> first_of (fst x) \<noteq> first_of r"
    by (simp add: common_zero_first)
  moreover from assms(2) have "first_of r \<noteq> None" by (cases r) simp_all
  ultimately show ?thesis by auto
qed

lemma first_of_take: "0 < k \<Longrightarrow> first_of (take k l) = first_of l"
  by (cases l; cases k) simp_all

lemma first_of_drop: "k < length l \<Longrightarrow> first_of (drop k l) = Some (l ! k)"
  by (simp add: Cons_nth_drop_Suc [symmetric])

lemma split_firsts_differ:
  assumes "k = common l r" "k < length l"
  shows "first_of (drop k l) \<noteq> first_of (drop k r)"
proof (cases "k < length r")
  case True
  with assms common_mismatch [of l r] show ?thesis by (simp add: first_of_drop)
next
  case False
  then have "drop k r = []" by simp
  with assms(2) show ?thesis by (simp add: first_of_drop)
qed

lemma ginv_PutEdge:
  assumes "ginv E n" "GetEdge n i = Some e" "first_of (fst e') = first_of (fst e)" "ginv E (snd e')"
  shows "ginv E (PutEdge n i e')"
proof (rule ginvI)
  from ginvD(1) [OF assms(1)] show "kind (PutEdge n i e') = E" by simp
  from PutEdge_node_ok [OF ginvD(2) [OF assms(1)] assms(2,3)] show "node_ok (PutEdge n i e')" .
  fix x assume "x \<in> set (edges_of (PutEdge n i e'))"
  then have "x = e' \<or> x \<in> set (edges_of n)"
    unfolding PutEdge_edges [OF ginvD(2) [OF assms(1)] assms(2)] by blast
  then show "ginv E (snd x)" using assms(4) ginvD(3) [OF assms(1)] by blast
qed

lemma ginv_Add:
  assumes "ginv E n" "Edges_Add n e = Inr n'" "ginv E (snd e)"
    "\<And>x. x \<in> set (edges_of n) \<Longrightarrow> first_of (fst x) \<noteq> first_of (fst e)"
  shows "ginv E n'"
proof -
  note A = Edges_Add_ok [OF ginvD(2) [OF assms(1)] assms(2,4)]
  show ?thesis
  proof (rule ginvI)
    from A ginvD(1) [OF assms(1)] show "kind n' = E" by simp
    from A show "node_ok n'" by simp
    fix x assume "x \<in> set (edges_of n')"
    with A have "x = e \<or> x \<in> set (edges_of n)" by auto
    then show "ginv E (snd x)" using assms(3) ginvD(3) [OF assms(1)] by blast
  qed
qed

lemma ginv_Node_new2:
  assumes "Node_new2 E (Some f) (Some s) = Inr m" "first_of (fst f) \<noteq> first_of (fst s)"
    "ginv E (snd f)" "ginv E (snd s)"
  shows "ginv E m"
proof (rule ginvI)
  note N = Node_new2_ok [OF assms(1,2)]
  from N show "kind m = E" "node_ok m" by simp_all
  fix x assume "x \<in> set (edges_of m)"
  with N have "x = f \<or> x = s" by auto
  with assms(3,4) show "ginv E (snd x)" by blast
qed

lemma IsUnique_loop_ginv:
  "ginv E n \<Longrightarrow> IsUnique_loop E n r u = Inr (n', b) \<Longrightarrow> ginv E n'"
proof (induction "length r" arbitrary: n r u n' b rule: less_induct)
  case less
  note g = less.prems(1)
  show ?case
  proof (cases "r = []")
    case True
    with less.prems show ?thesis by (simp add: IsUnique_loop_Nil)
  next
    case False
    then show ?thesis
    proof (cases rule: IsUnique_loop_cases [where E = E and n = n and r = r and u = u])
      case (fail y)
      with less.prems show ?thesis by simp
    next
      case (miss p)
      with less.prems(2) have add: "Edges_Add n (r, Node_new E) = Inr n'"
        by (cases "Edges_Add n (r, Node_new E)") simp_all
      show ?thesis
      proof (rule ginv_Add [OF g add])
        show "ginv E (snd (r, Node_new E))" by simp
        fix x assume "x \<in> set (edges_of n)"
        from Find_zero_new [OF ginvD(2) [OF g] False miss(1) this]
        show "first_of (fst x) \<noteq> first_of (fst (r, Node_new E))" by simp
      qed
    next
      case (follow k i e)
      with less.prems(2) obtain c' where
        rec: "IsUnique_loop E (snd e) (drop k r) u = Inr (c', b)" and n': "n' = PutEdge n i (fst e, c')"
        by (cases "IsUnique_loop E (snd e) (drop k r) u") (auto split: prod.splits)
      from follow have "length (drop k r) < length r" by simp
      moreover from GetEdge_in_edges [OF follow(2)] ginvD(3) [OF g] have "ginv E (snd e)" by blast
      ultimately have "ginv E c'" using rec by (rule less.hyps)
      with ginv_PutEdge [OF g follow(2), of "(fst e, c')"] n' show ?thesis by simp
    next
      case (split k i e)
      with less.prems(2) obtain m where
        m: "Node_new2 E (Some (drop k (fst e), snd e)) (Some (drop k r, Node_new E)) = Inr m"
        and n': "n' = PutEdge n i (take k (fst e), m)"
        by (cases "Node_new2 E (Some (drop k (fst e), snd e)) (Some (drop k r, Node_new E))") simp_all
      from GetEdge_in_edges [OF split(2)] ginvD(3) [OF g] have ge: "ginv E (snd e)" by blast
      from split_firsts_differ [OF split(4,5)]
      have "first_of (fst (drop k (fst e), snd e)) \<noteq> first_of (fst (drop k r, Node_new E))" by simp
      from ginv_Node_new2 [OF m this] ge have "ginv E m" by simp
      with ginv_PutEdge [OF g split(2), of "(take k (fst e), m)"] first_of_take [OF split(3)] n'
      show ?thesis by simp
    qed
  qed
qed

subsection \<open>Trees of values of one length\<close>

definition isdigits :: "string \<Rightarrow> bool" where
  "isdigits s = list_all isdigit s"

text \<open>The values a tree holds: the labels along each path from the node to a leaf.\<close>

function words :: "node \<Rightarrow> string set" where
  "words n = (if edges_of n = [] then {[]}
              else (\<Union>e\<in>set (edges_of n). (@) (fst e) ` words (snd e)))"
  by pat_completeness auto
termination
  by (relation "measure size") (auto dest: size_edges_of)

declare words.simps [simp del]

definition firsts :: "node \<Rightarrow> char option set" where
  "firsts n = (first_of \<circ> fst) ` set (edges_of n)"

definition branching :: "node \<Rightarrow> bool" where
  "branching n = (edges_of n = [] \<or> (\<exists>a\<in>firsts n. \<exists>b\<in>firsts n. a \<noteq> b))"

text \<open>
  \<open>fixed_width d n\<close>: every path from \<open>n\<close> to a leaf spells \<open>d\<close> digits, no label is
  empty, and a node below an edge is a leaf or branches.
\<close>

function fixed_width :: "nat \<Rightarrow> node \<Rightarrow> bool" where
  "fixed_width d n =
     ((edges_of n = [] \<longleftrightarrow> d = 0) \<and>
      (\<forall>e\<in>set (edges_of n). fst e \<noteq> [] \<and> isdigits (fst e) \<and> length (fst e) \<le> d
          \<and> fixed_width (d - length (fst e)) (snd e) \<and> branching (snd e)))"
  by pat_completeness auto
termination
  by (relation "measure (\<lambda>(d, n). size n)") (auto dest: size_edges_of)

declare fixed_width.simps [simp del]

definition edges_ok :: "nat \<Rightarrow> node \<Rightarrow> bool" where
  "edges_ok d n = (\<forall>e\<in>set (edges_of n). fst e \<noteq> [] \<and> isdigits (fst e) \<and> length (fst e) \<le> d
          \<and> fixed_width (d - length (fst e)) (snd e) \<and> branching (snd e))"

text \<open>The values below a node; for the root these are the values the tree has stored.\<close>

definition below :: "node \<Rightarrow> string set" where
  "below n = (\<Union>e\<in>set (edges_of n). (@) (fst e) ` words (snd e))"

lemma fixed_width_iff: "fixed_width d n \<longleftrightarrow> (edges_of n = [] \<longleftrightarrow> d = 0) \<and> edges_ok d n"
  by (subst fixed_width.simps) (simp add: edges_ok_def)

lemma edges_okD:
  "edges_ok d n \<Longrightarrow> e \<in> set (edges_of n) \<Longrightarrow>
     fst e \<noteq> [] \<and> isdigits (fst e) \<and> length (fst e) \<le> d
       \<and> fixed_width (d - length (fst e)) (snd e) \<and> branching (snd e)"
  unfolding edges_ok_def by blast

lemma edges_ok_0: "edges_ok 0 n \<Longrightarrow> edges_of n = []"
proof (rule ccontr)
  assume a: "edges_ok 0 n" "edges_of n \<noteq> []"
  then obtain e where "e \<in> set (edges_of n)" by (cases "edges_of n") auto
  from edges_okD [OF a(1) this] show False by blast
qed

lemma edges_ok_Node_new [simp]: "edges_ok d (Node_new E)"
  by (simp add: edges_ok_def)

lemma below_Node_new [simp]: "below (Node_new E) = {}"
  by (simp add: below_def)

lemma words_below: "edges_of n \<noteq> [] \<Longrightarrow> words n = below n"
  by (subst words.simps) (simp add: below_def)

lemma words_leaf: "edges_of n = [] \<Longrightarrow> words n = {[]}"
  by (subst words.simps) simp

lemma words_edges:
  "edges_of n \<noteq> [] \<Longrightarrow> words n = (\<Union>e\<in>set (edges_of n). (@) (fst e) ` words (snd e))"
  by (subst words.simps) simp

lemma words_Node_new [simp]: "words (Node_new E) = {[]}"
  by (simp add: words_leaf)

lemma fixed_widthD:
  assumes "fixed_width d n"
  shows "edges_of n = [] \<longleftrightarrow> d = 0"
    and "\<And>e. e \<in> set (edges_of n) \<Longrightarrow> fst e \<noteq> [] \<and> isdigits (fst e) \<and> length (fst e) \<le> d
          \<and> fixed_width (d - length (fst e)) (snd e) \<and> branching (snd e)"
  using assms by (subst (asm) fixed_width.simps, blast)+

lemma fixed_widthI:
  assumes "edges_of n = [] \<longleftrightarrow> d = 0"
    and "\<And>e. e \<in> set (edges_of n) \<Longrightarrow> fst e \<noteq> [] \<and> isdigits (fst e) \<and> length (fst e) \<le> d
          \<and> fixed_width (d - length (fst e)) (snd e) \<and> branching (snd e)"
  shows "fixed_width d n"
  using assms by (subst fixed_width.simps) blast

lemma fixed_width_Node_new [simp]: "fixed_width 0 (Node_new E)"
  by (rule fixed_widthI) simp_all

lemma branching_Node_new [simp]: "branching (Node_new E)"
  by (simp add: branching_def)

lemma isdigits_simps [simp]:
  "isdigits []" "isdigits (c # s) \<longleftrightarrow> isdigit c \<and> isdigits s"
  by (simp_all add: isdigits_def)

lemma isdigits_take: "isdigits s \<Longrightarrow> isdigits (take k s)"
  unfolding isdigits_def list_all_iff by (auto dest: in_set_takeD)

lemma isdigits_drop: "isdigits s \<Longrightarrow> isdigits (drop k s)"
  unfolding isdigits_def list_all_iff by (auto dest: in_set_dropD)

lemma isdigits_hd: "isdigits s \<Longrightarrow> s \<noteq> [] \<Longrightarrow> isdigit (hd s)"
  by (cases s) simp_all

lemma first_of_append: "l \<noteq> [] \<Longrightarrow> first_of (l @ w) = first_of l"
  by (cases l) simp_all

lemma first_of_None: "first_of s = None \<longleftrightarrow> s = []"
  by (cases s) simp_all

text \<open>Every value of a tree of width \<open>d\<close> has \<open>d\<close> digits.\<close>

lemma words_length:
  "fixed_width d n \<Longrightarrow> w \<in> words n \<Longrightarrow> length w = d \<and> isdigits w"
proof (induction d n arbitrary: w rule: fixed_width.induct)
  case (1 d n)
  show ?case
  proof (cases "edges_of n = []")
    case True
    with "1.prems" fixed_widthD(1) [OF "1.prems"(1)] show ?thesis by (simp add: words_leaf)
  next
    case False
    with "1.prems"(2) obtain e w' where e: "e \<in> set (edges_of n)" "w' \<in> words (snd e)" "w = fst e @ w'"
      by (auto simp: words_edges)
    note D = fixed_widthD(2) [OF "1.prems"(1) e(1)]
    from "1.IH" [OF e(1) _ e(2)] D have "length w' = d - length (fst e) \<and> isdigits w'" by blast
    with D e(3) show ?thesis by (auto simp: isdigits_def)
  qed
qed

lemma words_nonempty: "fixed_width d n \<Longrightarrow> words n \<noteq> {}"
proof (induction d n rule: fixed_width.induct)
  case (1 d n)
  show ?case
  proof (cases "edges_of n")
    case Nil
    then show ?thesis by (simp add: words_leaf)
  next
    case (Cons e es)
    then have e: "e \<in> set (edges_of n)" by simp
    from "1.IH" [OF e] fixed_widthD(2) [OF "1.prems" e] have "words (snd e) \<noteq> {}" by blast
    with e Cons show ?thesis by (auto simp: words_edges)
  qed
qed

text \<open>A value is spelled by the one edge that starts with its first character.\<close>

lemma words_via:
  assumes "node_ok n" "e \<in> set (edges_of n)" "fst e \<noteq> []" "first_of r = first_of (fst e)"
    "\<And>x. x \<in> set (edges_of n) \<Longrightarrow> fst x \<noteq> []"
  shows "r \<in> words n \<longleftrightarrow> (\<exists>w\<in>words (snd e). r = fst e @ w)"
proof
  assume "r \<in> words n"
  moreover from assms(2) have ne: "edges_of n \<noteq> []" by auto
  ultimately obtain x w where x: "x \<in> set (edges_of n)" "w \<in> words (snd x)" "r = fst x @ w"
    by (auto simp: words_edges)
  from assms(5) [OF x(1)] x(3) have "first_of r = first_of (fst x)" by (simp add: first_of_append)
  with assms(4) have "first_of (fst x) = first_of (fst e)" by simp
  from nodup_edges [OF assms(1) x(1) assms(2) this] x show "\<exists>w\<in>words (snd e). r = fst e @ w"
    by blast
next
  assume "\<exists>w\<in>words (snd e). r = fst e @ w"
  moreover from assms(2) have "edges_of n \<noteq> []" by auto
  ultimately show "r \<in> words n" using assms(2) by (auto simp: words_edges)
qed

lemma words_other:
  assumes "\<And>x. x \<in> set (edges_of n) \<Longrightarrow> fst x \<noteq> [] \<and> first_of (fst x) \<noteq> first_of r"
    "edges_of n \<noteq> []"
  shows "r \<notin> words n"
proof
  assume "r \<in> words n"
  with assms(2) obtain x w where x: "x \<in> set (edges_of n)" "r = fst x @ w"
    by (auto simp: words_edges)
  from assms(1) [OF x(1)] have "fst x \<noteq> []" "first_of (fst x) \<noteq> first_of r" by simp_all
  with x(2) first_of_append [of "fst x" w] show False by simp
qed

lemma below_via:
  assumes "node_ok n" "e \<in> set (edges_of n)" "fst e \<noteq> []" "first_of r = first_of (fst e)"
    "\<And>x. x \<in> set (edges_of n) \<Longrightarrow> fst x \<noteq> []"
  shows "r \<in> below n \<longleftrightarrow> (\<exists>w\<in>words (snd e). r = fst e @ w)"
proof -
  from assms(2) have "edges_of n \<noteq> []" by auto
  from words_via [OF assms] words_below [OF this] show ?thesis by simp
qed

lemma below_other:
  assumes "\<And>x. x \<in> set (edges_of n) \<Longrightarrow> fst x \<noteq> [] \<and> first_of (fst x) \<noteq> first_of r"
  shows "r \<notin> below n"
proof (cases "edges_of n = []")
  case True
  then show ?thesis by (simp add: below_def)
next
  case False
  from words_other [OF assms False] words_below [OF False] show ?thesis by simp
qed

lemma below_insert:
  "set (edges_of n') = insert e (set (edges_of n)) \<Longrightarrow>
     below n' = (@) (fst e) ` words (snd e) \<union> below n"
  by (simp add: below_def)

lemma below_replace:
  assumes "set (edges_of n') = insert e' (set (edges_of n) - {e})" "e \<in> set (edges_of n)"
  shows "below n' = (@) (fst e') ` words (snd e') \<union> (\<Union>x\<in>set (edges_of n) - {e}. (@) (fst x) ` words (snd x))"
    and "below n = (@) (fst e) ` words (snd e) \<union> (\<Union>x\<in>set (edges_of n) - {e}. (@) (fst x) ` words (snd x))"
proof -
  show "below n' = (@) (fst e') ` words (snd e') \<union> (\<Union>x\<in>set (edges_of n) - {e}. (@) (fst x) ` words (snd x))"
    unfolding below_def assms(1) by simp
  define f where "f = (\<lambda>x::edge. (@) (fst x) ` words (snd x))"
  define S where "S = set (edges_of n)"
  from assms(2) have "e \<in> S" by (simp add: S_def)
  then have "(\<Union>x\<in>S. f x) = f e \<union> (\<Union>x\<in>S - {e}. f x)" by blast
  then show "below n = (@) (fst e) ` words (snd e) \<union> (\<Union>x\<in>set (edges_of n) - {e}. (@) (fst x) ` words (snd x))"
    unfolding below_def f_def S_def .
qed

lemma firsts_insert:
  "set (edges_of n') = insert e (set (edges_of n)) \<Longrightarrow> firsts n \<subseteq> firsts n'"
  by (auto simp: firsts_def)

lemma firsts_replace:
  assumes "set (edges_of n') = insert e' (set (edges_of n) - {e})" "first_of (fst e') = first_of (fst e)"
  shows "firsts n \<subseteq> firsts n'"
proof
  fix a assume "a \<in> firsts n"
  then obtain x where x: "x \<in> set (edges_of n)" "a = first_of (fst x)" by (auto simp: firsts_def)
  show "a \<in> firsts n'"
  proof (cases "x = e")
    case True
    with x assms(2) have "a = (first_of \<circ> fst) e'" by simp
    moreover from assms(1) have "e' \<in> set (edges_of n')" by simp
    ultimately show ?thesis unfolding firsts_def by blast
  next
    case False
    with x assms(1) have "x \<in> set (edges_of n')" by simp
    with x(2) show ?thesis unfolding firsts_def by force
  qed
qed

lemma fw_miss:
  assumes g: "ginv E n" and ok: "edges_ok d n" and len: "length r = d" and dig: "isdigits r"
    and ne: "r \<noteq> []" and F: "Edges_Find n r = Inr (0, p)"
  shows "\<exists>n'. Edges_Add n (r, Node_new E) = Inr n' \<and> fixed_width d n'
           \<and> below n' = insert r (below n) \<and> r \<notin> below n \<and> firsts n \<subseteq> firsts n'"
proof -
  note nok = ginvD(2) [OF g]
  have "\<exists>n'. Edges_Add n (r, Node_new E) = Inr n'"
    by (rule Edges_Add_total) (use nok ne dig in \<open>simp add: isdigits_hd\<close>)
  then obtain n' where add: "Edges_Add n (r, Node_new E) = Inr n'" ..
  have new: "first_of (fst x) \<noteq> first_of (fst (r, Node_new E))" if "x \<in> set (edges_of n)" for x
    using Find_zero_new [OF nok ne F that] by simp
  from Edges_Add_ok [OF nok add new]
  have es: "set (edges_of n') = insert (r, Node_new E) (set (edges_of n))" by blast
  then have nonempty: "edges_of n' \<noteq> []" by auto
  have "edges_ok d n'"
    unfolding edges_ok_def
  proof
    fix e assume "e \<in> set (edges_of n')"
    with es have "e = (r, Node_new E) \<or> e \<in> set (edges_of n)" by auto
    then show "fst e \<noteq> [] \<and> isdigits (fst e) \<and> length (fst e) \<le> d
          \<and> fixed_width (d - length (fst e)) (snd e) \<and> branching (snd e)"
    proof
      assume "e = (r, Node_new E)"
      with ne dig len show ?thesis by simp
    next
      assume "e \<in> set (edges_of n)"
      from edges_okD [OF ok this] show ?thesis .
    qed
  qed
  with nonempty ne len have fw: "fixed_width d n'" by (auto simp: fixed_width_iff)
  from below_insert [OF es] have b: "below n' = insert r (below n)" by simp
  have "r \<notin> below n"
  proof (rule below_other)
    fix x assume x: "x \<in> set (edges_of n)"
    from edges_okD [OF ok x] new [OF x] show "fst x \<noteq> [] \<and> first_of (fst x) \<noteq> first_of r" by simp
  qed
  with add fw b firsts_insert [OF es] show ?thesis by blast
qed

lemma branching_mono:
  assumes "branching c" "firsts c \<subseteq> firsts c'"
  shows "branching c' \<or> edges_of c = []"
proof (cases "edges_of c = []")
  case True
  then show ?thesis ..
next
  case False
  with assms(1) obtain a b where "a \<in> firsts c" "b \<in> firsts c" "a \<noteq> b"
    unfolding branching_def by blast
  with assms(2) have "\<exists>a\<in>firsts c'. \<exists>b\<in>firsts c'. a \<noteq> b" by blast
  then show ?thesis unfolding branching_def by blast
qed

lemma fw_follow:
  assumes g: "ginv E n" and ok: "edges_ok d n" and len: "length r = d"
    and G: "GetEdge n i = Some e" and k: "k = common (fst e) r" "k = length (fst e)"
    and c': "fixed_width (d - k) c'" "words c' = insert (drop k r) (words (snd e))"
      "firsts (snd e) \<subseteq> firsts c'"
  shows "fixed_width d (PutEdge n i (fst e, c')) \<and> below (PutEdge n i (fst e, c')) = insert r (below n)
     \<and> (r \<in> below n \<longleftrightarrow> drop k r \<in> words (snd e)) \<and> firsts n \<subseteq> firsts (PutEdge n i (fst e, c'))"
proof -
  note nok = ginvD(2) [OF g]
  let ?n' = "PutEdge n i (fst e, c')"
  from GetEdge_in_edges [OF G] have e: "e \<in> set (edges_of n)" .
  note E = edges_okD [OF ok e]
  from k common_full [of "fst e" r] have pre: "take k r = fst e" by simp
  then have r: "r = fst e @ drop k r" by (metis append_take_drop_id)
  from E r have fr: "first_of r = first_of (fst e)" by (metis first_of_append)
  from PutEdge_edges [OF nok G]
  have es: "set (edges_of ?n') = insert (fst e, c') (set (edges_of n) - {e})" .
  then have nonempty: "edges_of ?n' \<noteq> []" by auto
  have bc: "branching c'"
  proof (cases "edges_of (snd e) = []")
    case True
    with E have "d - k = 0" using k(2) by (simp add: fixed_width_iff)
    with c'(1) have "edges_of c' = []" by (simp add: fixed_width_iff)
    then show ?thesis by (simp add: branching_def)
  next
    case False
    with branching_mono [OF _ c'(3)] E show ?thesis by blast
  qed
  have "edges_ok d ?n'"
    unfolding edges_ok_def
  proof
    fix x assume "x \<in> set (edges_of ?n')"
    with es have "x = (fst e, c') \<or> x \<in> set (edges_of n)" by auto
    then show "fst x \<noteq> [] \<and> isdigits (fst x) \<and> length (fst x) \<le> d
          \<and> fixed_width (d - length (fst x)) (snd x) \<and> branching (snd x)"
    proof
      assume "x = (fst e, c')"
      moreover from E have "fst e \<noteq> []" "isdigits (fst e)" "length (fst e) \<le> d" by blast+
      ultimately show ?thesis using c'(1) k(2) bc by simp
    next
      assume "x \<in> set (edges_of n)"
      from edges_okD [OF ok this] show ?thesis .
    qed
  qed
  moreover from E len have "d \<noteq> 0" by auto
  ultimately have fw: "fixed_width d ?n'" using nonempty by (simp add: fixed_width_iff)
  note B = below_replace [OF es e]
  have "(@) (fst e) ` words c' = insert r ((@) (fst e) ` words (snd e))"
    unfolding c'(2) using r by simp
  with B have b: "below ?n' = insert r (below n)" by simp
  have "\<And>x. x \<in> set (edges_of n) \<Longrightarrow> fst x \<noteq> []" using edges_okD [OF ok] by blast
  from below_via [OF nok e _ fr this] E
  have "r \<in> below n \<longleftrightarrow> (\<exists>w\<in>words (snd e). r = fst e @ w)" by blast
  also have "\<dots> \<longleftrightarrow> drop k r \<in> words (snd e)"
  proof
    assume "\<exists>w\<in>words (snd e). r = fst e @ w"
    then obtain w where w: "w \<in> words (snd e)" "r = fst e @ w" by blast
    from w(2) k(2) have "drop k r = w" by simp
    with w(1) show "drop k r \<in> words (snd e)" by simp
  next
    assume "drop k r \<in> words (snd e)"
    with r show "\<exists>w\<in>words (snd e). r = fst e @ w" by blast
  qed
  finally have m: "r \<in> below n \<longleftrightarrow> drop k r \<in> words (snd e)" .
  have "firsts n \<subseteq> firsts ?n'" by (rule firsts_replace [OF es]) simp
  with fw b m show ?thesis by blast
qed

lemma fw_split:
  assumes g: "ginv E n" and ok: "edges_ok d n" and len: "length r = d" and dig: "isdigits r"
    and G: "GetEdge n i = Some e" and k: "k = common (fst e) r" "0 < k" "k < length (fst e)"
  shows "\<exists>m. Node_new2 E (Some (drop k (fst e), snd e)) (Some (drop k r, Node_new E)) = Inr m
     \<and> fixed_width d (PutEdge n i (take k (fst e), m))
     \<and> below (PutEdge n i (take k (fst e), m)) = insert r (below n)
     \<and> r \<notin> below n \<and> firsts n \<subseteq> firsts (PutEdge n i (take k (fst e), m))"
proof -
  note nok = ginvD(2) [OF g]
  from GetEdge_in_edges [OF G] have e: "e \<in> set (edges_of n)" .
  note E = edges_okD [OF ok e]
  let ?f = "(drop k (fst e), snd e)" and ?s = "(drop k r, Node_new E)"
  from E len k(3) have kr: "k < length r" by simp
  from k(3) have dl: "drop k (fst e) \<noteq> []" by simp
  from kr have dr: "drop k r \<noteq> []" by simp
  from split_firsts_differ [OF k(1,3)] have diff: "first_of (fst ?f) \<noteq> first_of (fst ?s)" by simp
  have "\<exists>m. Node_new2 E (Some ?f) (Some ?s) = Inr m"
  proof (rule Node_new2_total [OF _ diff])
    from E dig dl dr isdigits_hd [OF isdigits_drop [of "fst e" k] dl]
      isdigits_hd [OF isdigits_drop [of r k] dr]
    show "E = Indexed \<longrightarrow> fst ?f \<noteq> [] \<and> isdigit (hd (fst ?f)) \<and> fst ?s \<noteq> [] \<and> isdigit (hd (fst ?s))"
      by simp
  qed
  then obtain m where m: "Node_new2 E (Some ?f) (Some ?s) = Inr m" ..
  from Node_new2_ok [OF m diff] have ms: "set (edges_of m) = {?f, ?s}" by blast
  let ?e' = "(take k (fst e), m)"
  let ?n' = "PutEdge n i ?e'"
  from PutEdge_edges [OF nok G]
  have es: "set (edges_of ?n') = insert ?e' (set (edges_of n) - {e})" .
  then have nonempty: "edges_of ?n' \<noteq> []" by auto
  have mne: "edges_of m \<noteq> []" using ms by auto
  have "edges_ok (d - k) m"
    unfolding edges_ok_def
  proof
    fix x assume "x \<in> set (edges_of m)"
    with ms have "x = ?f \<or> x = ?s" by auto
    then show "fst x \<noteq> [] \<and> isdigits (fst x) \<and> length (fst x) \<le> d - k
          \<and> fixed_width (d - k - length (fst x)) (snd x) \<and> branching (snd x)"
    proof
      assume x: "x = ?f"
      from E have le: "length (fst e) \<le> d" and de: "isdigits (fst e)"
        and fe: "fixed_width (d - length (fst e)) (snd e)" and be: "branching (snd e)" by blast+
      from le k(3) have "d - k - length (drop k (fst e)) = d - length (fst e)" by simp
      with fe have "fixed_width (d - k - length (drop k (fst e))) (snd e)" by simp
      moreover from le have "length (drop k (fst e)) \<le> d - k" by simp
      ultimately show ?thesis using x dl be isdigits_drop [OF de, of k] by simp
    next
      assume x: "x = ?s"
      with dr len isdigits_drop [OF dig, of k] show ?thesis by simp
    qed
  qed
  with mne kr len have fwm: "fixed_width (d - k) m" by (simp add: fixed_width_iff)
  have "first_of (drop k (fst e)) \<in> firsts m" "first_of (drop k r) \<in> firsts m"
    unfolding firsts_def ms by simp_all
  with diff have bm: "branching m" unfolding branching_def by force
  have "edges_ok d ?n'"
    unfolding edges_ok_def
  proof
    fix x assume "x \<in> set (edges_of ?n')"
    with es have "x = ?e' \<or> x \<in> set (edges_of n)" by auto
    then show "fst x \<noteq> [] \<and> isdigits (fst x) \<and> length (fst x) \<le> d
          \<and> fixed_width (d - length (fst x)) (snd x) \<and> branching (snd x)"
    proof
      assume x: "x = ?e'"
      from E have de: "isdigits (fst e)" by blast
      from k(2,3) have "take k (fst e) \<noteq> []" "length (take k (fst e)) = k" by auto
      moreover from kr len have "k \<le> d" by simp
      ultimately show ?thesis using x isdigits_take [OF de, of k] fwm bm by simp
    next
      assume "x \<in> set (edges_of n)"
      from edges_okD [OF ok this] show ?thesis .
    qed
  qed
  moreover from kr len have "d \<noteq> 0" by auto
  ultimately have fw: "fixed_width d ?n'" using nonempty by (simp add: fixed_width_iff)
  from k(1) common_take [of "fst e" r] have tk: "take k (fst e) = take k r" by simp
  have wm: "words m = (@) (drop k (fst e)) ` words (snd e) \<union> {drop k r}"
    unfolding words_below [OF mne] below_def ms by auto
  have "(@) (take k (fst e)) ` words m = insert r ((@) (fst e) ` words (snd e))"
  proof -
    have "(@) (take k (fst e)) ` ((@) (drop k (fst e)) ` words (snd e)) = (@) (fst e) ` words (snd e)"
      unfolding image_image by (simp add: append_assoc [symmetric] del: append_assoc)
    moreover have "take k (fst e) @ drop k r = r" unfolding tk by simp
    ultimately show ?thesis unfolding wm image_Un by simp
  qed
  with below_replace [OF es e] have b: "below ?n' = insert r (below n)" by simp
  from k(1,2) have fr: "first_of r = first_of (fst e)" by (simp add: common_pos_first)
  have "\<And>x. x \<in> set (edges_of n) \<Longrightarrow> fst x \<noteq> []" using edges_okD [OF ok] by blast
  from below_via [OF nok e _ fr this] E
  have "r \<in> below n \<longleftrightarrow> (\<exists>w\<in>words (snd e). r = fst e @ w)" by blast
  moreover have "\<not> (\<exists>w\<in>words (snd e). r = fst e @ w)"
  proof
    assume "\<exists>w\<in>words (snd e). r = fst e @ w"
    then have "take (length (fst e)) r = fst e" by auto
    with common_full [of "fst e" r] k(1,3) show False by simp
  qed
  ultimately have nin: "r \<notin> below n" by simp
  have "firsts n \<subseteq> firsts ?n'"
    by (rule firsts_replace [OF es]) (simp add: first_of_take [OF k(2)])
  with m fw b nin show ?thesis by blast
qed

text \<open>
  One call on a tree of values of one length reports whether the value is new, and the
  tree then holds the value as well. With \<^verbatim>\<open>OrderedEdges\<close> the call may instead end in
  the decrement of \<^verbatim>\<open>begin()\<close>; with the other two collections it returns.
\<close>

lemma IsUnique_loop_one_width:
  assumes "ginv E n" "edges_ok d n" "length r = d" "isdigits r" "r \<noteq> []"
  shows "(E = Ordered \<and> IsUnique_loop E n r u = Inl undefined_behaviour)
       \<or> (\<exists>n'. IsUnique_loop E n r u = Inr (n', u \<or> r \<notin> below n) \<and> fixed_width d n'
           \<and> below n' = insert r (below n) \<and> firsts n \<subseteq> firsts n')"
  using assms
proof (induction "length r" arbitrary: n r u d rule: less_induct)
  case less
  note g = less.prems(1) and ok = less.prems(2) and len = less.prems(3)
    and dig = less.prems(4) and ne = less.prems(5)
  note nok = ginvD(2) [OF g]
  from ne show ?case
  proof (cases rule: IsUnique_loop_cases [where E = E and n = n and r = r and u = u])
    case (fail x)
    show ?thesis
    proof (cases "E = Ordered")
      case True
      from Edges_Find_no_raise [OF ne fail(1)] fail(2) True show ?thesis by simp
    next
      case False
      with ginvD(1) [OF g] have "\<forall>c. n = OrderedEdges c \<longrightarrow> \<not> at_begin c r" by auto
      with nok dig ne have "\<exists>k p. Edges_Find n r = Inr (k, p)"
        by (intro Edges_Find_total) (simp_all add: isdigits_hd)
      with fail(1) show ?thesis by simp
    qed
  next
    case (miss p)
    from fw_miss [OF g ok len dig ne miss(1)] obtain n' where
      n': "Edges_Add n (r, Node_new E) = Inr n'" "fixed_width d n'"
        "below n' = insert r (below n)" "r \<notin> below n" "firsts n \<subseteq> firsts n'" by blast
    from miss(2) n'(1) have "IsUnique_loop E n r u = Inr (n', True)" by simp
    with n' show ?thesis by simp
  next
    case (follow k i e)
    from GetEdge_in_edges [OF follow(2)] have e: "e \<in> set (edges_of n)" .
    note Ee = edges_okD [OF ok e]
    from Ee have fwc: "fixed_width (d - k) (snd e)" using follow(5) by simp
    from ginvD(3) [OF g e] have gc: "ginv E (snd e)" .
    have "(E = Ordered \<and> IsUnique_loop E (snd e) (drop k r) u = Inl undefined_behaviour)
      \<or> (\<exists>c'. IsUnique_loop E (snd e) (drop k r) u = Inr (c', u \<or> drop k r \<notin> words (snd e))
        \<and> fixed_width (d - k) c' \<and> words c' = insert (drop k r) (words (snd e))
        \<and> firsts (snd e) \<subseteq> firsts c')"
    proof (cases "drop k r = []")
      case True
      with len follow(6) have "d - k = 0" by simp
      with fwc have "edges_of (snd e) = []" by (simp add: fixed_width_iff)
      then have "words (snd e) = {[]}" by (rule words_leaf)
      with True fwc show ?thesis by (simp add: IsUnique_loop_Nil)
    next
      case False
      with len have dk: "d - k \<noteq> 0" by auto
      from follow(3) ne have lt: "length (drop k r) < length r" by simp
      from fwc have okc: "edges_ok (d - k) (snd e)" by (simp add: fixed_width_iff)
      from len have lenc: "length (drop k r) = d - k" by simp
      from less.hyps [OF lt gc okc lenc isdigits_drop [OF dig] False, of u]
      show ?thesis
      proof
        assume "E = Ordered \<and> IsUnique_loop E (snd e) (drop k r) u = Inl undefined_behaviour"
        then show ?thesis by auto
      next
        assume "\<exists>c'. IsUnique_loop E (snd e) (drop k r) u = Inr (c', u \<or> drop k r \<notin> below (snd e))
          \<and> fixed_width (d - k) c' \<and> below c' = insert (drop k r) (below (snd e))
          \<and> firsts (snd e) \<subseteq> firsts c'"
        then obtain c' where
          c': "IsUnique_loop E (snd e) (drop k r) u = Inr (c', u \<or> drop k r \<notin> below (snd e))"
            "fixed_width (d - k) c'" "below c' = insert (drop k r) (below (snd e))"
            "firsts (snd e) \<subseteq> firsts c'" by blast
        from fwc dk have "edges_of (snd e) \<noteq> []" by (simp add: fixed_width_iff)
        then have w: "words (snd e) = below (snd e)" by (rule words_below)
        from c'(2) dk have "edges_of c' \<noteq> []" by (simp add: fixed_width_iff)
        then have w': "words c' = below c'" by (rule words_below)
        from c' w w' show ?thesis by simp
      qed
    qed
    then show ?thesis
    proof
      assume "E = Ordered \<and> IsUnique_loop E (snd e) (drop k r) u = Inl undefined_behaviour"
      with follow(7) show ?thesis by auto
    next
      assume "\<exists>c'. IsUnique_loop E (snd e) (drop k r) u = Inr (c', u \<or> drop k r \<notin> words (snd e))
        \<and> fixed_width (d - k) c' \<and> words c' = insert (drop k r) (words (snd e))
        \<and> firsts (snd e) \<subseteq> firsts c'"
      then obtain c' where
        c': "IsUnique_loop E (snd e) (drop k r) u = Inr (c', u \<or> drop k r \<notin> words (snd e))"
          "fixed_width (d - k) c'" "words c' = insert (drop k r) (words (snd e))"
          "firsts (snd e) \<subseteq> firsts c'" by blast
      note R = fw_follow [OF g ok len follow(2,4,5) c'(2,3,4)]
      from follow(7) c'(1)
      have "IsUnique_loop E n r u = Inr (PutEdge n i (fst e, c'), u \<or> drop k r \<notin> words (snd e))"
        by simp
      with R show ?thesis by simp
    qed
  next
    case (split k i e)
    from fw_split [OF g ok len dig split(2,4,3,5)] obtain m where
      m: "Node_new2 E (Some (drop k (fst e), snd e)) (Some (drop k r, Node_new E)) = Inr m"
        "fixed_width d (PutEdge n i (take k (fst e), m))"
        "below (PutEdge n i (take k (fst e), m)) = insert r (below n)"
        "r \<notin> below n" "firsts n \<subseteq> firsts (PutEdge n i (take k (fst e), m))" by blast
    from split(7) m(1) have "IsUnique_loop E n r u = Inr (PutEdge n i (take k (fst e), m), True)"
      by simp
    with m show ?thesis by simp
  qed
qed

lemma IsUnique_loop_fixed_width:
  assumes "ginv E n" "edges_ok d n" "length r = d" "isdigits r" "r \<noteq> []" "E \<noteq> Ordered"
  shows "\<exists>n'. IsUnique_loop E n r u = Inr (n', u \<or> r \<notin> below n) \<and> fixed_width d n'
           \<and> below n' = insert r (below n) \<and> firsts n \<subseteq> firsts n'"
  using IsUnique_loop_one_width [OF assms(1-5), of u] assms(6) by blast

subsection \<open>Runs of calls on values of one length\<close>

text \<open>What a detector that remembers the set \<open>S\<close> answers to the values \<open>vs\<close> in turn.\<close>

fun fresh_flags :: "string set \<Rightarrow> string list \<Rightarrow> bool list" where
  "fresh_flags S [] = []"
| "fresh_flags S (v # vs) = (v \<notin> S) # fresh_flags (insert v S) vs"

lemma length_fresh_flags [simp]: "length (fresh_flags S vs) = length vs"
  by (induction vs arbitrary: S) simp_all

lemma fresh_flags_nth:
  "i < length vs \<Longrightarrow> fresh_flags S vs ! i \<longleftrightarrow> vs ! i \<notin> S \<union> set (take i vs)"
proof (induction vs arbitrary: S i)
  case Nil
  then show ?case by simp
next
  case (Cons v vs)
  show ?case
  proof (cases i)
    case 0
    then show ?thesis by simp
  next
    case (Suc j)
    with Cons.prems have "j < length vs" by simp
    from Cons.IH [OF this, of "insert v S"] Suc show ?thesis by simp
  qed
qed

lemma fresh_flags_append:
  "fresh_flags S (vs @ ws) = fresh_flags S vs @ fresh_flags (S \<union> set vs) ws"
  by (induction vs arbitrary: S) simp_all

lemma fresh_flags_count: "length (filter id (fresh_flags S vs)) = card (set vs - S)"
proof (induction vs arbitrary: S)
  case Nil
  then show ?case by simp
next
  case (Cons v vs)
  show ?case
  proof (cases "v \<in> S")
    case True
    then have "insert v S = S" "set (v # vs) - S = set vs - S" by auto
    with Cons [of S] True show ?thesis by simp
  next
    case False
    then have "set (v # vs) - S = insert v (set vs - insert v S)" by auto
    moreover have "card (insert v (set vs - insert v S)) = Suc (card (set vs - insert v S))"
      by (rule card_insert_disjoint) simp_all
    ultimately show ?thesis using Cons [of "insert v S"] False by simp
  qed
qed

lemma SetAlgorithm_run:
  "calls E (SetAlgorithm S) (map IsUnique_call vs) = Inr (SetAlgorithm (S \<union> set vs), fresh_flags S vs)"
  by (induction vs arbitrary: S) (simp_all add: SetAlgorithm_IsUnique_def)

text \<open>The tree \<open>t\<close> holds the set \<open>S\<close> of values of \<open>d\<close> digits.\<close>

definition holds :: "Edges \<Rightarrow> nat \<Rightarrow> node \<Rightarrow> string set \<Rightarrow> bool" where
  "holds E d t S = (ginv E t \<and> edges_ok d t \<and> below t = S)"

lemma holds_Node_new [simp]: "holds E d (Node_new E) {}"
  by (simp add: holds_def)

lemma holds_step:
  assumes "holds E d t S" "length v = d" "isdigits v" "v \<noteq> []"
  shows "(E = Ordered \<and> CompactRadixTreeAlgorithm_IsUnique E t v = Inl undefined_behaviour)
       \<or> (\<exists>t'. CompactRadixTreeAlgorithm_IsUnique E t v = Inr (t', v \<notin> S) \<and> holds E d t' (insert v S))"
proof -
  from assms(1) have g: "ginv E t" and ok: "edges_ok d t" and b: "below t = S"
    by (simp_all add: holds_def)
  from IsUnique_loop_one_width [OF g ok assms(2,3,4), of False] show ?thesis
  proof
    assume "E = Ordered \<and> IsUnique_loop E t v False = Inl undefined_behaviour"
    then show ?thesis by (auto simp: CompactRadixTreeAlgorithm_IsUnique_def)
  next
    assume "\<exists>n'. IsUnique_loop E t v False = Inr (n', False \<or> v \<notin> below t) \<and> fixed_width d n'
           \<and> below n' = insert v (below t) \<and> firsts t \<subseteq> firsts n'"
    then obtain t' where
      t': "IsUnique_loop E t v False = Inr (t', False \<or> v \<notin> below t)" "fixed_width d t'"
        "below t' = insert v (below t)" by blast
    from IsUnique_loop_ginv [OF g t'(1)] have "ginv E t'" .
    with t' b show ?thesis
      by (simp add: CompactRadixTreeAlgorithm_IsUnique_def holds_def fixed_width_iff)
  qed
qed

text \<open>
  A run of calls on values of \<open>d\<close> digits answers as the set does and leaves a tree that
  holds them all, unless a lookup in \<^verbatim>\<open>OrderedEdges\<close> stops it.
\<close>

lemma CompactRadixTree_run_or_undefined:
  assumes "holds E d t S" "\<forall>v\<in>set vs. length v = d \<and> isdigits v" "0 < d"
  shows "(E = Ordered \<and> calls E (CompactRadixTreeAlgorithm t) (map IsUnique_call vs)
                 = Inl undefined_behaviour)
       \<or> (\<exists>t'. calls E (CompactRadixTreeAlgorithm t) (map IsUnique_call vs)
                 = Inr (CompactRadixTreeAlgorithm t', fresh_flags S vs)
              \<and> holds E d t' (S \<union> set vs))"
  using assms
proof (induction vs arbitrary: t S)
  case Nil
  then show ?case by simp
next
  case (Cons v vs)
  from Cons.prems have v: "length v = d" "isdigits v" "v \<noteq> []" by auto
  from holds_step [OF Cons.prems(1) v] show ?case
  proof
    assume "E = Ordered \<and> CompactRadixTreeAlgorithm_IsUnique E t v = Inl undefined_behaviour"
    then show ?thesis by auto
  next
    assume "\<exists>t'. CompactRadixTreeAlgorithm_IsUnique E t v = Inr (t', v \<notin> S)
      \<and> holds E d t' (insert v S)"
    then obtain t1 where
      t1: "CompactRadixTreeAlgorithm_IsUnique E t v = Inr (t1, v \<notin> S)" "holds E d t1 (insert v S)"
      by blast
    from Cons.prems(2) have "\<forall>v\<in>set vs. length v = d \<and> isdigits v" by simp
    from Cons.IH [OF t1(2) this Cons.prems(3)] show ?thesis
    proof
      assume "E = Ordered \<and> calls E (CompactRadixTreeAlgorithm t1) (map IsUnique_call vs)
        = Inl undefined_behaviour"
      with t1(1) show ?thesis by auto
    next
      assume "\<exists>t'. calls E (CompactRadixTreeAlgorithm t1) (map IsUnique_call vs)
           = Inr (CompactRadixTreeAlgorithm t', fresh_flags (insert v S) vs)
         \<and> holds E d t' (insert v S \<union> set vs)"
      then obtain t' where
        t': "calls E (CompactRadixTreeAlgorithm t1) (map IsUnique_call vs)
             = Inr (CompactRadixTreeAlgorithm t', fresh_flags (insert v S) vs)"
          "holds E d t' (insert v S \<union> set vs)" by blast
      from t1(1) t' show ?thesis by simp
    qed
  qed
qed

lemma CompactRadixTree_run:
  assumes "holds E d t S" "\<forall>v\<in>set vs. length v = d \<and> isdigits v" "0 < d" "E \<noteq> Ordered"
  shows "\<exists>t'. calls E (CompactRadixTreeAlgorithm t) (map IsUnique_call vs)
                 = Inr (CompactRadixTreeAlgorithm t', fresh_flags S vs)
              \<and> holds E d t' (S \<union> set vs)"
  using CompactRadixTree_run_or_undefined [OF assms(1-3)] assms(4) by blast

text \<open>Values of one length: digit strings, not empty, as long as the first of them.\<close>

definition one_width :: "string list \<Rightarrow> bool" where
  "one_width vs = (\<forall>v\<in>set vs. v \<noteq> [] \<and> isdigits v \<and> length v = length (hd vs))"

lemma one_width_run_or_undefined:
  assumes "one_width vs"
  shows "(E = Ordered \<and> calls E (CompactRadixTreeAlgorithm (Node_new E)) (map IsUnique_call vs)
                 = Inl undefined_behaviour)
       \<or> (\<exists>t. calls E (CompactRadixTreeAlgorithm (Node_new E)) (map IsUnique_call vs)
                 = Inr (CompactRadixTreeAlgorithm t, fresh_flags {} vs)
              \<and> holds E (length (hd vs)) t (set vs))"
proof (cases vs)
  case Nil
  then show ?thesis by simp
next
  case (Cons v ws)
  with assms have "v \<noteq> []" by (simp add: one_width_def)
  with Cons have d: "0 < length (hd vs)" by simp
  from assms have "\<forall>v\<in>set vs. length v = length (hd vs) \<and> isdigits v" by (simp add: one_width_def)
  from CompactRadixTree_run_or_undefined [OF holds_Node_new this d, of E] show ?thesis by simp
qed

lemma one_width_run:
  assumes "one_width vs" "E \<noteq> Ordered"
  shows "\<exists>t. calls E (CompactRadixTreeAlgorithm (Node_new E)) (map IsUnique_call vs)
                 = Inr (CompactRadixTreeAlgorithm t, fresh_flags {} vs)
              \<and> holds E (length (hd vs)) t (set vs)"
  using one_width_run_or_undefined [OF assms(1), of E] assms(2) by blast

section \<open>Sequences of calls\<close>

lemma calls_append:
  "calls E a (cs @ ds) =
     (case calls E a cs of
        Inl e \<Rightarrow> Inl e
      | Inr (a', bs) \<Rightarrow>
          (case calls E a' ds of Inl e \<Rightarrow> Inl e | Inr (a'', bs') \<Rightarrow> Inr (a'', bs @ bs')))"
proof (induction cs arbitrary: a)
  case Nil
  then show ?case by (simp split: sum.splits)
next
  case (Cons c cs)
  show ?case
  proof (cases c)
    case Reset_call
    with Cons show ?thesis by simp
  next
    case (IsUnique_call v)
    with Cons show ?thesis by (simp split: sum.splits prod.splits)
  qed
qed

fun values_of :: "call list \<Rightarrow> string set" where
  "values_of [] = {}"
| "values_of (Reset_call # cs) = values_of cs"
| "values_of (IsUnique_call v # cs) = insert v (values_of cs)"

lemma SetAlgorithm_calls:
  "Reset_call \<notin> set cs \<Longrightarrow>
     \<exists>bs. calls E (SetAlgorithm m) cs = Inr (SetAlgorithm (m \<union> values_of cs), bs)"
proof (induction cs arbitrary: m)
  case Nil
  then show ?case by simp
next
  case (Cons c cs)
  then obtain v where c: "c = IsUnique_call v" by (cases c) auto
  from Cons.prems have "Reset_call \<notin> set cs" by simp
  from Cons.IH [OF this, of "insert v m"] obtain bs where
    "calls E (SetAlgorithm (insert v m)) cs = Inr (SetAlgorithm (insert v m \<union> values_of cs), bs)" ..
  with c show ?case by (simp add: SetAlgorithm_IsUnique_def)
qed

text \<open>
  C10. On the empty string the loop of the radix tree's \<^verbatim>\<open>IsUnique\<close> does not run: the
  call returns false and leaves the tree as it was, in every state. The set-based
  detector, after a reset and any calls without a further reset, returns true for the
  empty string exactly when the empty string was not among those calls: true the first
  time, false from then on.
\<close>

theorem empty_string_detectors_disagree:
  "IsUnique E (CompactRadixTreeAlgorithm m_Root) [] = Inr (CompactRadixTreeAlgorithm m_Root, False)
   \<and> (Reset_call \<notin> set cs \<longrightarrow>
        (\<exists>a bs. calls E (Reset E (SetAlgorithm m_Numbers)) (cs @ [IsUnique_call []])
                  = Inr (a, bs @ [[] \<notin> values_of cs])))"
proof
  show "IsUnique E (CompactRadixTreeAlgorithm m_Root) [] = Inr (CompactRadixTreeAlgorithm m_Root, False)"
    by (simp add: CompactRadixTreeAlgorithm_IsUnique_def IsUnique_loop.simps)
next
  show "Reset_call \<notin> set cs \<longrightarrow>
        (\<exists>a bs. calls E (Reset E (SetAlgorithm m_Numbers)) (cs @ [IsUnique_call []])
                  = Inr (a, bs @ [[] \<notin> values_of cs]))"
  proof
    assume "Reset_call \<notin> set cs"
    from SetAlgorithm_calls [OF this, of E "{}"] obtain bs where
      "calls E (SetAlgorithm {}) cs = Inr (SetAlgorithm (values_of cs), bs)" by auto
    then show "\<exists>a bs. calls E (Reset E (SetAlgorithm m_Numbers)) (cs @ [IsUnique_call []])
                  = Inr (a, bs @ [[] \<notin> values_of cs])"
      by (simp add: calls_append SetAlgorithm_Reset_def SetAlgorithm_IsUnique_def)
  qed
qed

theorem empty_string_detectors_disagree_witness:
  "Reset_call \<notin> set [IsUnique_call ''7'', IsUnique_call [], IsUnique_call ''7'']
   \<and> IsUnique Indexed (CompactRadixTreeAlgorithm (Node_new Indexed)) []
        = Inr (CompactRadixTreeAlgorithm (Node_new Indexed), False)
   \<and> (\<exists>a bs. calls Indexed (Reset Indexed (SetAlgorithm {''3''}))
          ([IsUnique_call ''7'', IsUnique_call [], IsUnique_call ''7''] @ [IsUnique_call []])
        = Inr (a, bs @ [False]))"
  using empty_string_detectors_disagree
    [of Indexed "Node_new Indexed" "[IsUnique_call ''7'', IsUnique_call [], IsUnique_call ''7'']" "{''3''}"]
  by simp

section \<open>The claims\<close>

lemma one_width_append:
  "one_width (vs @ [v]) \<Longrightarrow> one_width vs \<and> v \<noteq> [] \<and> isdigits v \<and> (vs \<noteq> [] \<longrightarrow> length v = length (hd vs))"
  by (cases vs) (auto simp: one_width_def)

lemma fresh_run:
  assumes "one_width (vs @ [v])" "E \<noteq> Ordered"
  shows "\<exists>a bs. calls E (CompactRadixTreeAlgorithm (Node_new E)) (map IsUnique_call vs @ [IsUnique_call v])
           = Inr (a, bs @ [v \<notin> set vs])"
proof -
  from one_width_run [OF assms] obtain t where
    "calls E (CompactRadixTreeAlgorithm (Node_new E)) (map IsUnique_call (vs @ [v]))
       = Inr (CompactRadixTreeAlgorithm t, fresh_flags {} (vs @ [v]))" by blast
  then show ?thesis by (simp add: fresh_flags_append)
qed

text \<open>
  C1, as the code has it. The values passed since construction or since the last
  \<^verbatim>\<open>Reset\<close> are digit strings of one length, not empty, and so is \<open>v\<close>: then the call
  returns, and it returns true exactly when \<open>v\<close> is not among them. The tree before the
  \<^verbatim>\<open>Reset\<close> may be any tree. The collection is \<^verbatim>\<open>IndexedEdges\<close>, as the source is
  built, or \<^verbatim>\<open>UnorderedEdges\<close>; a lookup in \<^verbatim>\<open>OrderedEdges\<close> may decrement \<^verbatim>\<open>begin()\<close>.
\<close>

theorem IsUnique_true_iff_unseen:
  assumes "one_width (vs @ [v])" "E \<noteq> Ordered"
  shows "(\<exists>a bs. calls E (CreateInstance E CompactRadixTree) (map IsUnique_call vs @ [IsUnique_call v])
            = Inr (a, bs @ [v \<notin> set vs]))
       \<and> (\<exists>a bs. calls E (CompactRadixTreeAlgorithm m_Root)
                    (Reset_call # map IsUnique_call vs @ [IsUnique_call v])
            = Inr (a, bs @ [v \<notin> set vs]))"
  using fresh_run [OF assms]
  by (simp add: CreateInstance_def CompactRadixTreeAlgorithm_Reset_def)

theorem IsUnique_true_iff_unseen_witness:
  "one_width ([''12'', ''13''] @ [''12''])
   \<and> (\<exists>a bs. calls Indexed (CreateInstance Indexed CompactRadixTree)
                (map IsUnique_call [''12'', ''13''] @ [IsUnique_call ''12''])
            = Inr (a, bs @ [False]))
   \<and> (\<exists>a bs. calls Indexed (CompactRadixTreeAlgorithm (IndexedEdges []))
                (Reset_call # map IsUnique_call [''12'', ''13''] @ [IsUnique_call ''12''])
            = Inr (a, bs @ [False]))"
proof -
  have h: "one_width ([''12'', ''13''] @ [''12''])"
    by (simp add: one_width_def isdigits_def isdigit_def)
  have e: "Indexed \<noteq> Ordered" by simp
  from IsUnique_true_iff_unseen [OF h e, of "IndexedEdges []"] h show ?thesis by simp
qed

text \<open>
  C1 as stated fails: after \<^verbatim>\<open>"12"\<close> and \<^verbatim>\<open>"13"\<close> the value \<^verbatim>\<open>"1"\<close>, which was never
  passed, is reported as seen, with each of the three collections.
\<close>

theorem IsUnique_unseen_prefix_counterexample:
  "map_sum id snd (calls Indexed (CreateInstance Indexed CompactRadixTree)
       [IsUnique_call ''12'', IsUnique_call ''13'', IsUnique_call ''1'']) = Inr [True, True, False]
   \<and> map_sum id snd (calls Unordered (CreateInstance Unordered CompactRadixTree)
       [IsUnique_call ''12'', IsUnique_call ''13'', IsUnique_call ''1'']) = Inr [True, True, False]
   \<and> map_sum id snd (calls Ordered (CreateInstance Ordered CompactRadixTree)
       [IsUnique_call ''12'', IsUnique_call ''13'', IsUnique_call ''1'']) = Inr [True, True, False]"
  by code_simp

text \<open>
  C2. For values of one length the radix tree and the set-based detector return the
  same results, and the number of true results is the number of distinct values. The
  collection is \<^verbatim>\<open>IndexedEdges\<close>, as the source is built, or \<^verbatim>\<open>UnorderedEdges\<close>.
\<close>

theorem true_results_count_distinct_values:
  assumes "one_width vs" "E \<noteq> Ordered"
  shows "\<exists>a a' bs. calls E (CreateInstance E CompactRadixTree) (map IsUnique_call vs) = Inr (a, bs)
       \<and> calls E (CreateInstance E Set) (map IsUnique_call vs) = Inr (a', bs)
       \<and> length (filter id bs) = card (set vs)"
proof -
  from one_width_run [OF assms] obtain t where
    "calls E (CreateInstance E CompactRadixTree) (map IsUnique_call vs)
       = Inr (CompactRadixTreeAlgorithm t, fresh_flags {} vs)"
    by (auto simp: CreateInstance_def)
  moreover have "calls E (CreateInstance E Set) (map IsUnique_call vs)
       = Inr (SetAlgorithm (set vs), fresh_flags {} vs)"
    using SetAlgorithm_run [of E "{}" vs] by (simp add: CreateInstance_def)
  moreover have "length (filter id (fresh_flags {} vs)) = card (set vs)"
    by (simp add: fresh_flags_count)
  ultimately show ?thesis by blast
qed

theorem true_results_count_distinct_values_witness:
  "one_width [''123'', ''456'', ''123'', ''457'', ''442'', ''441'']
   \<and> (\<exists>a a' bs. calls Indexed (CreateInstance Indexed CompactRadixTree)
                    (map IsUnique_call [''123'', ''456'', ''123'', ''457'', ''442'', ''441'']) = Inr (a, bs)
       \<and> calls Indexed (CreateInstance Indexed Set)
            (map IsUnique_call [''123'', ''456'', ''123'', ''457'', ''442'', ''441'']) = Inr (a', bs)
       \<and> length (filter id bs) = 5)"
proof -
  have h: "one_width [''123'', ''456'', ''123'', ''457'', ''442'', ''441'']"
    by (simp add: one_width_def isdigits_def isdigit_def)
  have c: "card (set [''123'', ''456'', ''123'', ''457'', ''442'', ''441'']) = 5"
    by code_simp
  have e: "Indexed \<noteq> Ordered" by simp
  from true_results_count_distinct_values [OF h e] h c show ?thesis by simp
qed

lemma one_width_mset:
  assumes "one_width vs" "mset ws = mset vs"
  shows "one_width ws"
proof (cases ws)
  case Nil
  then show ?thesis by (simp add: one_width_def)
next
  case (Cons w ws')
  from assms(2) have s: "set ws = set vs" by (metis set_mset_mset)
  with Cons have "hd ws \<in> set vs" by auto
  with assms(1) have "length (hd ws) = length (hd vs)" by (simp add: one_width_def)
  with assms(1) s show ?thesis by (simp add: one_width_def)
qed

text \<open>
  C7. Two orderings of the same values of one length give the same number of true
  results, with the radix tree and with the set. The collection is \<^verbatim>\<open>IndexedEdges\<close>,
  as the source is built, or \<^verbatim>\<open>UnorderedEdges\<close>.
\<close>

theorem count_independent_of_order:
  assumes "one_width vs" "mset ws = mset vs" "E \<noteq> Ordered"
  shows "\<exists>a bs a' bs'. calls E (CreateInstance E algorithmType) (map IsUnique_call vs) = Inr (a, bs)
       \<and> calls E (CreateInstance E algorithmType) (map IsUnique_call ws) = Inr (a', bs')
       \<and> length (filter id bs) = length (filter id bs')"
proof -
  from assms(2) have s: "set ws = set vs" by (metis set_mset_mset)
  have run: "\<exists>a. calls E (CreateInstance E algorithmType) (map IsUnique_call xs) = Inr (a, fresh_flags {} xs)"
    if "one_width xs" for xs
  proof (cases algorithmType)
    case CompactRadixTree
    from one_width_run [OF that assms(3)] show ?thesis
      unfolding CompactRadixTree by (auto simp: CreateInstance_def)
  next
    case Set
    from SetAlgorithm_run [of E "{}" xs] show ?thesis unfolding Set by (simp add: CreateInstance_def)
  qed
  from run [OF assms(1)] run [OF one_width_mset [OF assms(1,2)]] s show ?thesis
    using fresh_flags_count [of "{}" vs] fresh_flags_count [of "{}" ws] by auto
qed

theorem count_independent_of_order_witness:
  "one_width [''12'', ''34'', ''12''] \<and> mset [''34'', ''12'', ''12''] = mset [''12'', ''34'', ''12'']
   \<and> (\<exists>a bs a' bs'. calls Indexed (CreateInstance Indexed CompactRadixTree)
                        (map IsUnique_call [''12'', ''34'', ''12'']) = Inr (a, bs)
       \<and> calls Indexed (CreateInstance Indexed CompactRadixTree)
            (map IsUnique_call [''34'', ''12'', ''12'']) = Inr (a', bs')
       \<and> length (filter id bs) = length (filter id bs'))"
proof -
  have h: "one_width [''12'', ''34'', ''12'']"
    by (simp add: one_width_def isdigits_def isdigit_def)
  have m: "mset [''34'', ''12'', ''12''] = mset [''12'', ''34'', ''12'']" by simp
  have e: "Indexed \<noteq> Ordered" by simp
  from count_independent_of_order [OF h m e, of CompactRadixTree] h m show ?thesis by simp
qed

lemma Node_Eat_no_raise:
  assumes "r \<noteq> []" "Node_Eat E n r u = Inl x"
  shows "x = undefined_behaviour"
proof (cases "Edges_Find n r")
  case (Inl y)
  with assms have "x = y" unfolding Node_Eat_def by simp
  with Edges_Find_no_raise [OF assms(1) Inl] show ?thesis by simp
next
  case (Inr kp)
  obtain k p where kp: "kp = (k, p)" by (cases kp)
  show ?thesis
  proof (cases "k = 0")
    case True
    with Inr kp have F: "Edges_Find n r = Inr (0, p)" by simp
    from Node_Eat_miss [OF assms(1) F, of E u] assms(2)
    have "Edges_Add n (r, Node_new E) = Inl x"
      by (cases "Edges_Add n (r, Node_new E)") simp_all
    from Edges_Add_no_raise [OF this] show ?thesis by simp
  next
    case False
    then have k: "0 < k" by simp
    from Inr kp have F: "Edges_Find n r = Inr (k, p)" by simp
    from Edges_Find_pos [OF F k] obtain i e where
      ie: "p = Some i" "GetEdge n i = Some e" "k = common (fst e) r" by blast
    from F ie(1) have F': "Edges_Find n r = Inr (k, Some i)" by simp
    from ie(3) have le: "k \<le> length (fst e)" "k \<le> length r" by (simp_all add: common_le)
    show ?thesis
    proof (cases "k = length (fst e)")
      case True
      from Node_Eat_follow_eq [OF assms(1) F' k ie(2) True le(2), of E u] assms(2)
      show ?thesis by simp
    next
      case False
      with le have lt: "k < length (fst e)" by simp
      from Node_Eat_split_eq [OF assms(1) F' k ie(2) lt le(2), of E u] assms(2)
      have "Node_new2 E (Some (drop k (fst e), snd e)) (Some (drop k r, Node_new E)) = Inl x"
        by (cases "Node_new2 E (Some (drop k (fst e), snd e)) (Some (drop k r, Node_new E))") simp_all
      from Node_new2_no_raise [OF this] show ?thesis .
    qed
  qed
qed

lemma IsUnique_no_raise: "IsUnique E a v \<noteq> Inl (runtime_error msg)"
proof (cases a)
  case (CompactRadixTreeAlgorithm t)
  show ?thesis
  proof
    assume "IsUnique E a v = Inl (runtime_error msg)"
    with CompactRadixTreeAlgorithm have "IsUnique_loop E t v False = Inl (runtime_error msg)"
      by (cases "IsUnique_loop E t v False")
         (simp_all add: CompactRadixTreeAlgorithm_IsUnique_def split: prod.splits)
    from IsUnique_loop_no_raise [OF this] show False by simp
  qed
next
  case (SetAlgorithm S)
  then show ?thesis by (simp add: SetAlgorithm_IsUnique_def)
qed

text \<open>
  C9. No call of \<^verbatim>\<open>IsUnique\<close> ends in a \<^verbatim>\<open>runtime_error\<close>, whatever the tree and the
  value. The loop calls \<^verbatim>\<open>Node::Eat\<close> with a remainder that is not empty, and then none
  of the argument checks below it fires: \<^verbatim>\<open>Find\<close> returns a count that is at most the
  lengths of the label of the edge it returns and of the remainder, and \<^verbatim>\<open>Edge::Eat\<close>
  is called only when that count is positive. (The only failure left in the model is
  the index outside the ten slots of \<^verbatim>\<open>IndexedEdges\<close>, which raises nothing.)
\<close>

theorem no_invalid_argument_raised:
  "IsUnique E a v \<noteq> Inl (runtime_error msg)
   \<and> (r \<noteq> [] \<longrightarrow> Node_Eat E n r u \<noteq> Inl (runtime_error msg))
   \<and> (r \<noteq> [] \<longrightarrow> GetNumCommonChars l r \<noteq> Inl (runtime_error msg))
   \<and> (Edges_Find n r = Inr (k, p) \<and> 0 < k \<longrightarrow>
        (\<exists>i e. p = Some i \<and> GetEdge n i = Some e \<and> r \<noteq> []
           \<and> k \<le> min (length (fst e)) (length r)
           \<and> Edge_Eat E k e r u \<noteq> Inl (runtime_error msg)))"
proof (intro conjI impI)
  show "IsUnique E a v \<noteq> Inl (runtime_error msg)" by (rule IsUnique_no_raise)
next
  assume "r \<noteq> []"
  then show "Node_Eat E n r u \<noteq> Inl (runtime_error msg)"
    using Node_Eat_no_raise [of r E n u "runtime_error msg"] by auto
next
  assume "r \<noteq> []"
  then show "GetNumCommonChars l r \<noteq> Inl (runtime_error msg)"
    by (simp add: GetNumCommonChars_def)
next
  assume a: "Edges_Find n r = Inr (k, p) \<and> 0 < k"
  then have F: "Edges_Find n r = Inr (k, p)" and k: "0 < k" by simp_all
  from Edges_Find_pos [OF F k] obtain i e where
    ie: "p = Some i" "GetEdge n i = Some e" "k = common (fst e) r" by blast
  from ie(3) k have r: "r \<noteq> []" by (auto simp: common_pos)
  from ie(3) have le: "k \<le> length (fst e)" "k \<le> length r" by (simp_all add: common_le)
  have "Edge_Eat E k e r u \<noteq> Inl (runtime_error msg)"
  proof (cases "k = length (fst e)")
    case True
    from Edge_Eat_full [OF k True le(2), of E u] show ?thesis by simp
  next
    case False
    with le have lt: "k < length (fst e)" by simp
    show ?thesis
    proof
      assume "Edge_Eat E k e r u = Inl (runtime_error msg)"
      with Edge_Eat_split [OF k lt le(2), of E u]
      have "Node_new2 E (Some (drop k (fst e), snd e)) (Some (drop k r, Node_new E)) = Inl (runtime_error msg)"
        by (cases "Node_new2 E (Some (drop k (fst e), snd e)) (Some (drop k r, Node_new E))") simp_all
      from Node_new2_no_raise [OF this] show False by simp
    qed
  qed
  moreover from le have "k \<le> min (length (fst e)) (length r)" by simp
  ultimately show "\<exists>i e. p = Some i \<and> GetEdge n i = Some e \<and> r \<noteq> []
           \<and> k \<le> min (length (fst e)) (length r)
           \<and> Edge_Eat E k e r u \<noteq> Inl (runtime_error msg)" using ie(1,2) r by blast
qed

theorem no_invalid_argument_raised_witness:
  "''13'' \<noteq> [] \<and> Edges_Find (IndexedEdges [None, Some (''12'', Node_new Indexed)]) ''13'' = Inr (1, Some 1)
   \<and> 0 < (1::nat)
   \<and> IsUnique Indexed (CompactRadixTreeAlgorithm (IndexedEdges [None, Some (''12'', Node_new Indexed)])) ''13''
        \<noteq> Inl (runtime_error ''invalid remainder'')
   \<and> Node_Eat Indexed (IndexedEdges [None, Some (''12'', Node_new Indexed)]) ''13'' False
        \<noteq> Inl (runtime_error ''invalid remainder'')
   \<and> GetNumCommonChars ''12'' ''13'' \<noteq> Inl (runtime_error ''invalid remainder'')
   \<and> (\<exists>i e. Some 1 = Some i \<and> GetEdge (IndexedEdges [None, Some (''12'', Node_new Indexed)]) i = Some e
         \<and> ''13'' \<noteq> [] \<and> 1 \<le> min (length (fst e)) (length ''13'')
         \<and> Edge_Eat Indexed 1 e ''13'' False \<noteq> Inl (runtime_error ''invalid remainder''))"
proof -
  have h: "Edges_Find (IndexedEdges [None, Some (''12'', Node_new Indexed)]) ''13'' = Inr (1, Some 1)"
    by code_simp
  from no_invalid_argument_raised [of Indexed
      "CompactRadixTreeAlgorithm (IndexedEdges [None, Some (''12'', Node_new Indexed)])" "''13''"
      "''invalid remainder''" "''13''" "IndexedEdges [None, Some (''12'', Node_new Indexed)]" False
      "''12''" 1 "Some 1"] h
  show ?thesis by simp
qed




lemma edges_of_distinct: "node_ok n \<Longrightarrow> distinct (edges_of n)"
  using firsts_distinct [of n] by (simp add: distinct_map)

lemma two_edges:
  assumes "node_ok m" "set (edges_of m) = {f, s}" "f \<noteq> s"
  shows "length (edges_of m) = 2"
proof -
  from edges_of_distinct [OF assms(1)] have "length (edges_of m) = card (set (edges_of m))"
    by (simp add: distinct_card)
  with assms(2,3) show ?thesis by simp
qed

text \<open>
  C3, as the code has it. \<open>k\<close> is the count \<^verbatim>\<open>GetNumCommonChars\<close> returns for the label
  \<open>l\<close> and the suffix \<open>r\<close>, with \<open>0 < k < length l\<close>. With \<^verbatim>\<open>IndexedEdges\<close> the
  suffix must be longer than \<open>k\<close> and position \<open>k\<close> of label and suffix must hold digits,
  since both remainders are stored under their first digit. Then \<^verbatim>\<open>Edge::Eat\<close> returns
  the edge with the label cut to its first \<open>k\<close> characters, which are the first \<open>k\<close> of
  the suffix, and a new node of exactly two edges below it: the rest of the label with
  the old child, and the rest of the suffix with a node without edges. It returns the
  null pointer, the empty remainder and true, and so do \<^verbatim>\<open>Node::Eat\<close> and the loop of
  \<^verbatim>\<open>IsUnique\<close> for a node that holds the edge.
\<close>

theorem Edge_Eat_splits:
  assumes "GetNumCommonChars l r = Inr k" "0 < k" "k < length l"
    and "E = Indexed \<longrightarrow> k < length r \<and> isdigit (l ! k) \<and> isdigit (r ! k)"
  shows "\<exists>m. Edge_Eat E k (l, c) r u = Inr ((take k l, m), False, [], True)
     \<and> take k l = take k r
     \<and> set (edges_of m) = {(drop k l, c), (drop k r, Node_new E)} \<and> length (edges_of m) = 2
     \<and> edges_of (Node_new E) = []
     \<and> (\<forall>n i. GetEdge n i = Some (l, c) \<and> Edges_Find n r = Inr (k, Some i) \<longrightarrow>
           Node_Eat E n r u = Inr (PutEdge n i (take k l, m), None, [], True)
           \<and> IsUnique_loop E n r u = Inr (PutEdge n i (take k l, m), True))"
proof -
  from GetNumCommonChars_Inr [OF assms(1)] have r: "r \<noteq> []" and k: "k = common l r" by simp_all
  from k have kr: "k \<le> length r" by (simp add: common_le)
  let ?f = "(drop k l, c)" and ?s = "(drop k r, Node_new E)"
  from split_firsts_differ [OF k assms(3)] have diff: "first_of (fst ?f) \<noteq> first_of (fst ?s)" by simp
  then have ne: "?f \<noteq> ?s" by auto
  have "\<exists>m. Node_new2 E (Some ?f) (Some ?s) = Inr m"
  proof (rule Node_new2_total [OF _ diff])
    show "E = Indexed \<longrightarrow> fst ?f \<noteq> [] \<and> isdigit (hd (fst ?f)) \<and> fst ?s \<noteq> [] \<and> isdigit (hd (fst ?s))"
      using assms(3,4) by (auto simp: hd_drop_conv_nth)
  qed
  then obtain m where m: "Node_new2 E (Some ?f) (Some ?s) = Inr m" ..
  from Node_new2_ok [OF m diff] have ok: "node_ok m" and ms: "set (edges_of m) = {?f, ?s}" by blast+
  from Edge_Eat_split [of k "(l, c)" r E u] assms(2,3) kr m
  have E1: "Edge_Eat E k (l, c) r u = Inr ((take k l, m), False, [], True)" by simp
  have N: "Node_Eat E n r u = Inr (PutEdge n i (take k l, m), None, [], True)
           \<and> IsUnique_loop E n r u = Inr (PutEdge n i (take k l, m), True)"
    if "GetEdge n i = Some (l, c) \<and> Edges_Find n r = Inr (k, Some i)" for n i
  proof -
    from that have G: "GetEdge n i = Some (l, c)" and F: "Edges_Find n r = Inr (k, Some i)" by simp_all
    from Node_Eat_split_eq [OF r F assms(2) G, of E u] assms(3) kr m
    have "Node_Eat E n r u = Inr (PutEdge n i (take k l, m), None, [], True)" by simp
    moreover from IsUnique_loop_split [OF r F assms(2) G, of E u] assms(3) kr m
    have "IsUnique_loop E n r u = Inr (PutEdge n i (take k l, m), True)" by simp
    ultimately show ?thesis by simp
  qed
  from k common_take [of l r] have "take k l = take k r" by simp
  with E1 ms two_edges [OF ok ms ne] N show ?thesis by auto
qed

theorem Edge_Eat_splits_witness:
  "GetNumCommonChars ''123'' ''129'' = Inr 2 \<and> 0 < (2::nat) \<and> 2 < length ''123''
   \<and> 2 < length ''129'' \<and> isdigit (''123'' ! 2) \<and> isdigit (''129'' ! 2)
   \<and> GetEdge (IndexedEdges [None, Some (''123'', Node_new Indexed)]) 1 = Some (''123'', Node_new Indexed)
   \<and> Edges_Find (IndexedEdges [None, Some (''123'', Node_new Indexed)]) ''129'' = Inr (2, Some 1)
   \<and> (\<exists>m. Edge_Eat Indexed 2 (''123'', Node_new Indexed) ''129'' False = Inr ((''12'', m), False, [], True)
        \<and> set (edges_of m) = {(''3'', Node_new Indexed), (''9'', Node_new Indexed)}
        \<and> length (edges_of m) = 2
        \<and> Node_Eat Indexed (IndexedEdges [None, Some (''123'', Node_new Indexed)]) ''129'' False
            = Inr (PutEdge (IndexedEdges [None, Some (''123'', Node_new Indexed)]) 1 (''12'', m), None, [], True)
        \<and> IsUnique_loop Indexed (IndexedEdges [None, Some (''123'', Node_new Indexed)]) ''129'' False
            = Inr (PutEdge (IndexedEdges [None, Some (''123'', Node_new Indexed)]) 1 (''12'', m), True))"
proof -
  let ?n = "IndexedEdges [None, Some (''123'', Node_new Indexed)]"
  have h1: "GetNumCommonChars ''123'' ''129'' = Inr 2" by code_simp
  have h2: "Indexed = Indexed \<longrightarrow> 2 < length ''129'' \<and> isdigit (''123'' ! 2) \<and> isdigit (''129'' ! 2)"
    by (simp add: isdigit_def)
  have h3: "GetEdge ?n 1 = Some (''123'', Node_new Indexed)" by simp
  have h4: "Edges_Find ?n ''129'' = Inr (2, Some 1)" by code_simp
  from Edge_Eat_splits [OF h1 _ _ h2, of "Node_new Indexed" False] obtain m where
    m: "Edge_Eat Indexed 2 (''123'', Node_new Indexed) ''129'' False = Inr ((take 2 ''123'', m), False, [], True)"
      "set (edges_of m) = {(drop 2 ''123'', Node_new Indexed), (drop 2 ''129'', Node_new Indexed)}"
      "length (edges_of m) = 2"
      "\<forall>n i. GetEdge n i = Some (''123'', Node_new Indexed) \<and> Edges_Find n ''129'' = Inr (2, Some i) \<longrightarrow>
           Node_Eat Indexed n ''129'' False = Inr (PutEdge n i (take 2 ''123'', m), None, [], True)
           \<and> IsUnique_loop Indexed n ''129'' False = Inr (PutEdge n i (take 2 ''123'', m), True)"
    by auto
  from m(4) h3 h4 have "Node_Eat Indexed ?n ''129'' False = Inr (PutEdge ?n 1 (take 2 ''123'', m), None, [], True)
           \<and> IsUnique_loop Indexed ?n ''129'' False = Inr (PutEdge ?n 1 (take 2 ''123'', m), True)"
    by blast
  with m(1,2,3) have "\<exists>m. Edge_Eat Indexed 2 (''123'', Node_new Indexed) ''129'' False = Inr ((''12'', m), False, [], True)
        \<and> set (edges_of m) = {(''3'', Node_new Indexed), (''9'', Node_new Indexed)}
        \<and> length (edges_of m) = 2
        \<and> Node_Eat Indexed ?n ''129'' False = Inr (PutEdge ?n 1 (''12'', m), None, [], True)
        \<and> IsUnique_loop Indexed ?n ''129'' False = Inr (PutEdge ?n 1 (''12'', m), True)"
    by (intro exI [of _ m]) simp
  with h1 h2 h3 h4 show ?thesis by simp
qed

text \<open>
  C3 as stated fails: the suffix \<^verbatim>\<open>"1"\<close> shares one character with the label
  \<^verbatim>\<open>"12"\<close>, and the rest of the suffix, the empty string, has no slot in \<^verbatim>\<open>IndexedEdges\<close>.
\<close>

theorem Edge_Eat_short_suffix_counterexample:
  "GetNumCommonChars ''12'' ''1'' = Inr 1
   \<and> Edge_Eat Indexed 1 (''12'', Node_new Indexed) ''1'' False = Inl undefined_behaviour"
  by code_simp

subsection \<open>Every node of a tree\<close>

function every_node :: "(node \<Rightarrow> bool) \<Rightarrow> node \<Rightarrow> bool" where
  "every_node P n = (P n \<and> (\<forall>e\<in>set (edges_of n). every_node P (snd e)))"
  by pat_completeness auto
termination
  by (relation "measure (\<lambda>(P, n). size n)") (auto dest: size_edges_of)

declare every_node.simps [simp del]

text \<open>No two edges of the node have labels with a common first character.\<close>

definition no_shared_prefix :: "node \<Rightarrow> bool" where
  "no_shared_prefix n =
     (\<forall>i<length (edges_of n). \<forall>j<length (edges_of n). i \<noteq> j \<longrightarrow>
        GetNumCommonChars_loop (fst (edges_of n ! i)) (fst (edges_of n ! j)) 0 = 0)"

lemma node_ok_no_shared_prefix:
  assumes "node_ok n"
  shows "no_shared_prefix n"
  unfolding no_shared_prefix_def
proof (intro allI impI)
  fix i j assume ij: "i < length (edges_of n)" "j < length (edges_of n)" "i \<noteq> j"
  from firsts_distinct [OF assms] ij
  have "(first_of \<circ> fst) (edges_of n ! i) \<noteq> (first_of \<circ> fst) (edges_of n ! j)"
    using distinct_firsts_nth [of "first_of \<circ> fst" "edges_of n" i j] by blast
  then have "common (fst (edges_of n ! i)) (fst (edges_of n ! j)) = 0"
    by (simp add: common_zero_first)
  then show "GetNumCommonChars_loop (fst (edges_of n ! i)) (fst (edges_of n ! j)) 0 = 0"
    by (simp add: GetNumCommonChars_loop_common)
qed

lemma ginv_every_node: "ginv E n \<Longrightarrow> every_node no_shared_prefix n"
proof (induction E n rule: ginv.induct)
  case (1 E n)
  from ginvD [OF "1.prems"] "1.IH" node_ok_no_shared_prefix [of n] show ?case
    by (subst every_node.simps) blast
qed

text \<open>With \<^verbatim>\<open>UnorderedEdges\<close> every call returns, whatever the lengths of the values.\<close>

lemma IsUnique_loop_total:
  "ginv E n \<Longrightarrow> E = Unordered \<Longrightarrow> \<exists>n' b. IsUnique_loop E n r u = Inr (n', b)"
proof (induction "length r" arbitrary: n r u rule: less_induct)
  case less
  note g = less.prems(1)
  show ?case
  proof (cases "r = []")
    case True
    then show ?thesis by (simp add: IsUnique_loop_Nil)
  next
    case False
    then show ?thesis
    proof (cases rule: IsUnique_loop_cases [where E = E and n = n and r = r and u = u])
      case (fail x)
      from ginvD(1) [OF g] less.prems(2) have "kind n = Unordered" by simp
      then have "\<exists>k p. Edges_Find n r = Inr (k, p)"
        by (intro Edges_Find_total [OF False]) auto
      with fail(1) show ?thesis by simp
    next
      case (miss p)
      have "\<exists>n'. Edges_Add n (r, Node_new E) = Inr n'"
        by (rule Edges_Add_total) (use ginvD(1) [OF g] less.prems(2) in simp)
      with miss(2) show ?thesis by auto
    next
      case (follow k i e)
      from follow have "length (drop k r) < length r" by simp
      moreover from GetEdge_in_edges [OF follow(2)] ginvD(3) [OF g] have "ginv E (snd e)" by blast
      ultimately have "\<exists>c' b. IsUnique_loop E (snd e) (drop k r) u = Inr (c', b)"
        using less.prems(2) by (rule less.hyps)
      with follow(7) show ?thesis by auto
    next
      case (split k i e)
      from split_firsts_differ [OF split(4,5)]
      have "first_of (fst (drop k (fst e), snd e)) \<noteq> first_of (fst (drop k r, Node_new E))" by simp
      from Node_new2_total [OF _ this, of E] less.prems(2)
      have "\<exists>m. Node_new2 E (Some (drop k (fst e), snd e)) (Some (drop k r, Node_new E)) = Inr m"
        by simp
      with split(7) show ?thesis by auto
    qed
  qed
qed

lemma calls_ginv:
  assumes "ginv E t" "calls E (CompactRadixTreeAlgorithm t) (map IsUnique_call vs) = Inr (a, bs)"
  shows "\<exists>t'. a = CompactRadixTreeAlgorithm t' \<and> ginv E t'"
  using assms
proof (induction vs arbitrary: t bs)
  case Nil
  then show ?case by auto
next
  case (Cons v vs)
  from Cons.prems(2) obtain t1 b where
    t1: "IsUnique_loop E t v False = Inr (t1, b)"
    by (cases "IsUnique_loop E t v False")
       (auto simp: CompactRadixTreeAlgorithm_IsUnique_def split: prod.splits)
  with Cons.prems(2) obtain bs' where
    "calls E (CompactRadixTreeAlgorithm t1) (map IsUnique_call vs) = Inr (a, bs')"
    by (cases "calls E (CompactRadixTreeAlgorithm t1) (map IsUnique_call vs)")
       (auto simp: CompactRadixTreeAlgorithm_IsUnique_def split: prod.splits)
  from Cons.IH [OF IsUnique_loop_ginv [OF Cons.prems(1) t1] this] show ?case .
qed

lemma calls_total:
  assumes "ginv E t" "E = Unordered"
  shows "\<exists>t' bs. calls E (CompactRadixTreeAlgorithm t) (map IsUnique_call vs)
            = Inr (CompactRadixTreeAlgorithm t', bs)"
  using assms(1)
proof (induction vs arbitrary: t)
  case Nil
  then show ?case by simp
next
  case (Cons v vs)
  from IsUnique_loop_total [OF Cons.prems assms(2), of v False] obtain t1 b where
    t1: "IsUnique_loop E t v False = Inr (t1, b)" by blast
  from Cons.IH [OF IsUnique_loop_ginv [OF Cons.prems t1]] obtain t' bs where
    "calls E (CompactRadixTreeAlgorithm t1) (map IsUnique_call vs) = Inr (CompactRadixTreeAlgorithm t', bs)"
    by blast
  with t1 show ?case by (simp add: CompactRadixTreeAlgorithm_IsUnique_def)
qed

text \<open>
  C4, as the code has it. Whenever the calls return, no two edges of a node of the tree
  have labels that share a first character; the values may have any lengths. The calls
  return with \<^verbatim>\<open>UnorderedEdges\<close>, and with \<^verbatim>\<open>IndexedEdges\<close> when the values have one
  length. A reset engine is a new engine.
\<close>

theorem no_two_edges_share_a_prefix:
  "(\<forall>t bs. calls E (CreateInstance E CompactRadixTree) (map IsUnique_call vs)
              = Inr (CompactRadixTreeAlgorithm t, bs) \<longrightarrow> every_node no_shared_prefix t)
   \<and> (E = Unordered \<or> E = Indexed \<and> one_width vs \<longrightarrow>
        (\<exists>t bs. calls E (CreateInstance E CompactRadixTree) (map IsUnique_call vs)
                  = Inr (CompactRadixTreeAlgorithm t, bs)))
   \<and> Reset E (CompactRadixTreeAlgorithm m_Root) = CreateInstance E CompactRadixTree"
proof (intro conjI allI impI)
  fix t bs
  assume "calls E (CreateInstance E CompactRadixTree) (map IsUnique_call vs)
              = Inr (CompactRadixTreeAlgorithm t, bs)"
  then have "calls E (CompactRadixTreeAlgorithm (Node_new E)) (map IsUnique_call vs)
              = Inr (CompactRadixTreeAlgorithm t, bs)" by (simp add: CreateInstance_def)
  from calls_ginv [OF ginv_Node_new this] have "ginv E t" by simp
  then show "every_node no_shared_prefix t" by (rule ginv_every_node)
next
  assume a: "E = Unordered \<or> E = Indexed \<and> one_width vs"
  show "\<exists>t bs. calls E (CreateInstance E CompactRadixTree) (map IsUnique_call vs)
                  = Inr (CompactRadixTreeAlgorithm t, bs)"
  proof (cases "E = Unordered")
    case True
    from calls_total [OF ginv_Node_new True, of vs] show ?thesis by (simp add: CreateInstance_def)
  next
    case False
    with a have "one_width vs" "E \<noteq> Ordered" by simp_all
    from one_width_run [OF this] show ?thesis by (auto simp: CreateInstance_def)
  qed
next
  show "Reset E (CompactRadixTreeAlgorithm m_Root) = CreateInstance E CompactRadixTree"
    by (simp add: CreateInstance_def CompactRadixTreeAlgorithm_Reset_def)
qed

theorem no_two_edges_share_a_prefix_witness:
  "one_width [''12'', ''13'', ''22'']
   \<and> calls Indexed (CreateInstance Indexed CompactRadixTree) (map IsUnique_call [''12'', ''13'', ''22''])
       = Inr (CompactRadixTreeAlgorithm
           (IndexedEdges [None,
              Some (''1'', IndexedEdges [None, None, Some (''2'', Node_new Indexed),
                      Some (''3'', Node_new Indexed), None, None, None, None, None, None]),
              Some (''22'', Node_new Indexed), None, None, None, None, None, None, None]),
          [True, True, True])
   \<and> every_node no_shared_prefix
         (IndexedEdges [None,
              Some (''1'', IndexedEdges [None, None, Some (''2'', Node_new Indexed),
                      Some (''3'', Node_new Indexed), None, None, None, None, None, None]),
              Some (''22'', Node_new Indexed), None, None, None, None, None, None, None])"
proof -
  have h: "one_width [''12'', ''13'', ''22'']"
    by (simp add: one_width_def isdigits_def isdigit_def)
  have c: "calls Indexed (CreateInstance Indexed CompactRadixTree) (map IsUnique_call [''12'', ''13'', ''22''])
       = Inr (CompactRadixTreeAlgorithm
           (IndexedEdges [None,
              Some (''1'', IndexedEdges [None, None, Some (''2'', Node_new Indexed),
                      Some (''3'', Node_new Indexed), None, None, None, None, None, None]),
              Some (''22'', Node_new Indexed), None, None, None, None, None, None, None]),
          [True, True, True])"
    by code_simp
  from no_two_edges_share_a_prefix [of Indexed "[''12'', ''13'', ''22'']" "Node_new Indexed"] c h
  show ?thesis by blast
qed

text \<open>
  C4 as stated fails with the collection the engine is compiled with: after \<^verbatim>\<open>"12"\<close>
  the value \<^verbatim>\<open>"1"\<close> makes \<^verbatim>\<open>IndexedEdges::Add\<close> index its vector with the empty label,
  and no tree is defined after the call.
\<close>

theorem prefix_value_leaves_no_tree_counterexample:
  "calls Indexed (CreateInstance Indexed CompactRadixTree) (map IsUnique_call [''12'', ''1''])
     = Inl undefined_behaviour"
  by code_simp

subsection \<open>Where the edges are\<close>

text \<open>
  An edge is found by the characters spelled from the root of the tree to the node
  that owns it: \<open>located n\<close> holds, for every edge below \<open>n\<close>, that string with the label.
\<close>

function located :: "node \<Rightarrow> (string \<times> string) set" where
  "located n =
     (\<Union>e\<in>set (edges_of n). insert ([], fst e) ((\<lambda>pl. (fst e @ fst pl, snd pl)) ` located (snd e)))"
  by pat_completeness auto
termination
  by (relation "measure size") (auto dest: size_edges_of)

declare located.simps [simp del]

lemma located_edge: "e \<in> set (edges_of n) \<Longrightarrow> ([], fst e) \<in> located n"
  by (subst located.simps) blast

lemma located_below:
  "e \<in> set (edges_of n) \<Longrightarrow> (q, x) \<in> located (snd e) \<Longrightarrow> (fst e @ q, x) \<in> located n"
  by (subst located.simps) force

lemma located_cases:
  assumes "(p, l) \<in> located n"
  obtains e where "e \<in> set (edges_of n)" "p = []" "l = fst e"
  | e q where "e \<in> set (edges_of n)" "p = fst e @ q" "(q, l) \<in> located (snd e)"
  using assms by (subst (asm) located.simps) auto

definition labels_nonempty :: "node \<Rightarrow> bool" where
  "labels_nonempty n = (\<forall>e\<in>set (edges_of n). fst e \<noteq> [])"

lemma edges_ok_labels_nonempty: "edges_ok d n \<Longrightarrow> every_node labels_nonempty n"
proof (induction d n rule: fixed_width.induct)
  case (1 d n)
  have "every_node labels_nonempty (snd e)" if e: "e \<in> set (edges_of n)" for e
  proof -
    from edges_okD [OF "1.prems" e] have "edges_ok (d - length (fst e)) (snd e)"
      by (simp add: fixed_width_iff)
    from "1.IH" [OF e this] show ?thesis .
  qed
  moreover have "labels_nonempty n"
    unfolding labels_nonempty_def using edges_okD [OF "1.prems"] by blast
  ultimately show ?case by (subst every_node.simps) blast
qed

lemma located_label_nonempty:
  "every_node labels_nonempty n \<Longrightarrow> (p, l) \<in> located n \<Longrightarrow> l \<noteq> []"
proof (induction n arbitrary: p rule: located.induct)
  case (1 n)
  from "1.prems"(1) have P: "labels_nonempty n"
    and C: "\<And>e. e \<in> set (edges_of n) \<Longrightarrow> every_node labels_nonempty (snd e)"
    by (subst (asm) every_node.simps, blast)+
  from "1.prems"(2) show ?case
  proof (cases rule: located_cases)
    case (1 e)
    with P show ?thesis by (simp add: labels_nonempty_def)
  next
    case (2 e q)
    from "1.IH" [OF 2(1) C [OF 2(1)] 2(3)] show ?thesis .
  qed
qed

text \<open>
  One call keeps every edge where it is, with its label or with the label cut to the
  characters it shares with the value at that place.
\<close>

lemma located_step:
  assumes "ginv E n" "IsUnique_loop E n r u = Inr (n', b)" "(p, l) \<in> located n"
  shows "\<exists>l'. (p, l') \<in> located n' \<and>
           (l' = l \<or> (\<exists>k. 0 < k \<and> k < length l \<and> l' = take k l \<and> take k l = take k (drop (length p) r)))"
  using assms
proof (induction "length r" arbitrary: n r u n' b p l rule: less_induct)
  case less
  note g = less.prems(1) and run = less.prems(2) and pl = less.prems(3)
  note nok = ginvD(2) [OF g]
  show ?case
  proof (cases "r = []")
    case True
    with run have "n' = n" by (simp add: IsUnique_loop_Nil)
    with pl show ?thesis by blast
  next
    case False
    then show ?thesis
    proof (cases rule: IsUnique_loop_cases [where E = E and n = n and r = r and u = u])
      case (fail x)
      with run show ?thesis by simp
    next
      case (miss q)
      with run have add: "Edges_Add n (r, Node_new E) = Inr n'"
        by (cases "Edges_Add n (r, Node_new E)") simp_all
      have new: "first_of (fst x) \<noteq> first_of (fst (r, Node_new E))" if "x \<in> set (edges_of n)" for x
        using Find_zero_new [OF nok False miss(1) that] by simp
      from Edges_Add_ok [OF nok add new]
      have sub: "set (edges_of n) \<subseteq> set (edges_of n')" by blast
      from pl have "(p, l) \<in> located n'"
      proof (cases rule: located_cases)
        case (1 e)
        with sub located_edge [of e n'] show ?thesis by auto
      next
        case (2 e q)
        with sub located_below [of e n' q l] show ?thesis by auto
      qed
      then show ?thesis by blast
    next
      case (follow k i e)
      from run follow(7) obtain c' where
        rec: "IsUnique_loop E (snd e) (drop k r) u = Inr (c', b)" and n': "n' = PutEdge n i (fst e, c')"
        by (cases "IsUnique_loop E (snd e) (drop k r) u") (auto split: prod.splits)
      from GetEdge_in_edges [OF follow(2)] have e: "e \<in> set (edges_of n)" .
      from PutEdge_edges [OF nok follow(2)] n'
      have es: "set (edges_of n') = insert (fst e, c') (set (edges_of n) - {e})" by simp
      from follow have lt: "length (drop k r) < length r" by simp
      from ginvD(3) [OF g e] have gc: "ginv E (snd e)" .
      from pl show ?thesis
      proof (cases rule: located_cases)
        case (1 y)
        show ?thesis
        proof (cases "y = e")
          case True
          from es have "(fst e, c') \<in> set (edges_of n')" by simp
          from located_edge [OF this] 1 True show ?thesis by auto
        next
          case False
          with 1 es have "y \<in> set (edges_of n')" by simp
          from located_edge [OF this] 1 show ?thesis by auto
        qed
      next
        case (2 y q)
        show ?thesis
        proof (cases "y = e")
          case True
          with 2 have q: "(q, l) \<in> located (snd e)" by simp
          from less.hyps [OF lt gc rec q] obtain l' where
            l': "(q, l') \<in> located c'"
              "l' = l \<or> (\<exists>k'. 0 < k' \<and> k' < length l \<and> l' = take k' l
                  \<and> take k' l = take k' (drop (length q) (drop k r)))" by blast
          from es have "(fst e, c') \<in> set (edges_of n')" by simp
          from located_below [OF this, of q l'] l'(1) 2(2) True
          have "(p, l') \<in> located n'" by simp
          moreover from 2(2) True follow(5)
          have "drop (length p) r = drop (length q) (drop k r)" by (simp add: add.commute)
          ultimately show ?thesis using l'(2) by auto
        next
          case False
          with 2 es have "y \<in> set (edges_of n')" by simp
          from located_below [OF this 2(3)] 2(2) show ?thesis by auto
        qed
      qed
    next
      case (split k i e)
      from run split(7) obtain m where
        m: "Node_new2 E (Some (drop k (fst e), snd e)) (Some (drop k r, Node_new E)) = Inr m"
        and n': "n' = PutEdge n i (take k (fst e), m)"
        by (cases "Node_new2 E (Some (drop k (fst e), snd e)) (Some (drop k r, Node_new E))") simp_all
      from split_firsts_differ [OF split(4,5)]
      have "first_of (fst (drop k (fst e), snd e)) \<noteq> first_of (fst (drop k r, Node_new E))" by simp
      from Node_new2_ok [OF m this]
      have ms: "set (edges_of m) = {(drop k (fst e), snd e), (drop k r, Node_new E)}" by blast
      from PutEdge_edges [OF nok split(2)] n'
      have es: "set (edges_of n') = insert (take k (fst e), m) (set (edges_of n) - {e})" by simp
      then have em: "(take k (fst e), m) \<in> set (edges_of n')" by simp
      from pl show ?thesis
      proof (cases rule: located_cases)
        case (1 y)
        show ?thesis
        proof (cases "y = e")
          case True
          from located_edge [OF em] 1 have a: "(p, take k (fst e)) \<in> located n'" by simp
          from split(4) common_take [of "fst e" r] have "take k (fst e) = take k r" by simp
          with 1 True split(3,5)
          have "0 < k \<and> k < length l \<and> take k (fst e) = take k l \<and> take k l = take k (drop (length p) r)"
            by simp
          with a show ?thesis by blast
        next
          case False
          with 1 es have "y \<in> set (edges_of n')" by simp
          from located_edge [OF this] 1 show ?thesis by auto
        qed
      next
        case (2 y q)
        show ?thesis
        proof (cases "y = e")
          case True
          with 2 have q: "(q, l) \<in> located (snd e)" by simp
          from ms have "(drop k (fst e), snd e) \<in> set (edges_of m)" by simp
          from located_below [OF this, of q l] q have "(drop k (fst e) @ q, l) \<in> located m" by simp
          from located_below [OF em, of "drop k (fst e) @ q" l] this
          have "(take k (fst e) @ drop k (fst e) @ q, l) \<in> located n'" by simp
          then have "(fst e @ q, l) \<in> located n'"
            by (simp add: append_assoc [symmetric] del: append_assoc)
          with 2(2) True show ?thesis by auto
        next
          case False
          with 2 es have "y \<in> set (edges_of n')" by simp
          from located_below [OF this 2(3)] 2(2) show ?thesis by auto
        qed
      qed
    qed
  qed
qed

text \<open>
  C6, as the code has it. After calls with values of one length every label of the tree
  is non-empty. A further call, with any value, that returns keeps every edge in its
  place, and its label either as it was or cut to a non-empty prefix: the characters it
  shares with the value at that place, which is what a split does. The collection is
  \<^verbatim>\<open>IndexedEdges\<close>, as the source is built, or \<^verbatim>\<open>UnorderedEdges\<close>.
\<close>

theorem labels_nonempty_and_only_shortened:
  assumes "one_width vs" "E \<noteq> Ordered"
  shows "\<exists>t bs. calls E (CreateInstance E CompactRadixTree) (map IsUnique_call vs)
                  = Inr (CompactRadixTreeAlgorithm t, bs)
     \<and> every_node labels_nonempty t
     \<and> (\<forall>v t' b p l. CompactRadixTreeAlgorithm_IsUnique E t v = Inr (t', b) \<and> (p, l) \<in> located t \<longrightarrow>
          (\<exists>l'. (p, l') \<in> located t' \<and> l' \<noteq> [] \<and>
             (l' = l \<or> (\<exists>k. 0 < k \<and> k < length l \<and> l' = take k l
                           \<and> take k l = take k (drop (length p) v)))))"
proof -
  from one_width_run [OF assms] obtain t where
    t: "calls E (CompactRadixTreeAlgorithm (Node_new E)) (map IsUnique_call vs)
          = Inr (CompactRadixTreeAlgorithm t, fresh_flags {} vs)"
      "holds E (length (hd vs)) t (set vs)" by blast
  from t(2) have g: "ginv E t" and ok: "edges_ok (length (hd vs)) t" by (simp_all add: holds_def)
  from edges_ok_labels_nonempty [OF ok] have ne: "every_node labels_nonempty t" .
  have step: "\<exists>l'. (p, l') \<in> located t' \<and> l' \<noteq> [] \<and>
             (l' = l \<or> (\<exists>k. 0 < k \<and> k < length l \<and> l' = take k l
                           \<and> take k l = take k (drop (length p) v)))"
    if "CompactRadixTreeAlgorithm_IsUnique E t v = Inr (t', b) \<and> (p, l) \<in> located t" for v t' b p l
  proof -
    from that have run: "IsUnique_loop E t v False = Inr (t', b)" and pl: "(p, l) \<in> located t"
      by (simp_all add: CompactRadixTreeAlgorithm_IsUnique_def)
    from located_label_nonempty [OF ne pl] have l: "l \<noteq> []" .
    from located_step [OF g run pl] obtain l' where
      l': "(p, l') \<in> located t'"
        "l' = l \<or> (\<exists>k. 0 < k \<and> k < length l \<and> l' = take k l \<and> take k l = take k (drop (length p) v))"
      by blast
    from l'(2) l have "l' \<noteq> []" by auto
    with l' show ?thesis by blast
  qed
  from t(1) ne step show ?thesis unfolding CreateInstance_def by (intro exI [of _ t]) auto
qed

theorem labels_nonempty_and_only_shortened_witness:
  "one_width [''12'']
   \<and> CompactRadixTreeAlgorithm_IsUnique Unordered (UnorderedEdges [(''12'', UnorderedEdges [])]) ''13''
       = Inr (UnorderedEdges [(''1'', UnorderedEdges [(''2'', UnorderedEdges []), (''3'', UnorderedEdges [])])], True)
   \<and> ([], ''12'') \<in> located (UnorderedEdges [(''12'', UnorderedEdges [])])
   \<and> (\<exists>t bs. calls Unordered (CreateInstance Unordered CompactRadixTree) (map IsUnique_call [''12''])
                  = Inr (CompactRadixTreeAlgorithm t, bs)
        \<and> t = UnorderedEdges [(''12'', UnorderedEdges [])]
        \<and> every_node labels_nonempty t
        \<and> (\<exists>l'. ([], l') \<in> located (UnorderedEdges [(''1'', UnorderedEdges [(''2'', UnorderedEdges []), (''3'', UnorderedEdges [])])])
               \<and> l' \<noteq> []
               \<and> (l' = ''12'' \<or> (\<exists>k. 0 < k \<and> k < length ''12'' \<and> l' = take k ''12''
                                   \<and> take k ''12'' = take k (drop (length ([]::string)) ''13'')))))"
proof -
  let ?t = "UnorderedEdges [(''12'', UnorderedEdges [])]"
  let ?t' = "UnorderedEdges [(''1'', UnorderedEdges [(''2'', UnorderedEdges []), (''3'', UnorderedEdges [])])]"
  have h: "one_width [''12'']" by (simp add: one_width_def isdigits_def isdigit_def)
  have c: "calls Unordered (CreateInstance Unordered CompactRadixTree) (map IsUnique_call [''12''])
             = Inr (CompactRadixTreeAlgorithm ?t, [True])" by code_simp
  have s: "CompactRadixTreeAlgorithm_IsUnique Unordered ?t ''13'' = Inr (?t', True)" by code_simp
  have p: "([], ''12'') \<in> located ?t"
    using located_edge [of "(''12'', UnorderedEdges [])" ?t] by simp
  have e: "Unordered \<noteq> Ordered" by simp
  from labels_nonempty_and_only_shortened [OF h e] obtain t0 bs where
    t0: "calls Unordered (CreateInstance Unordered CompactRadixTree) (map IsUnique_call [''12''])
                  = Inr (CompactRadixTreeAlgorithm t0, bs)"
      "every_node labels_nonempty t0"
      "\<forall>v t' b p l. CompactRadixTreeAlgorithm_IsUnique Unordered t0 v = Inr (t', b) \<and> (p, l) \<in> located t0 \<longrightarrow>
          (\<exists>l'. (p, l') \<in> located t' \<and> l' \<noteq> [] \<and>
             (l' = l \<or> (\<exists>k. 0 < k \<and> k < length l \<and> l' = take k l
                           \<and> take k l = take k (drop (length p) v))))"
    by blast
  from t0(1) c have "t0 = ?t" by simp
  with t0(2,3) have
    t: "every_node labels_nonempty ?t"
      "\<forall>v t' b p l. CompactRadixTreeAlgorithm_IsUnique Unordered ?t v = Inr (t', b) \<and> (p, l) \<in> located ?t \<longrightarrow>
          (\<exists>l'. (p, l') \<in> located t' \<and> l' \<noteq> [] \<and>
             (l' = l \<or> (\<exists>k. 0 < k \<and> k < length l \<and> l' = take k l
                           \<and> take k l = take k (drop (length p) v))))"
    by simp_all
  from t(2) s p have "\<exists>l'. ([], l') \<in> located ?t' \<and> l' \<noteq> [] \<and>
             (l' = ''12'' \<or> (\<exists>k. 0 < k \<and> k < length ''12'' \<and> l' = take k ''12''
                           \<and> take k ''12'' = take k (drop (length ([]::string)) ''13'')))"
    by blast
  with h c s p t(1) show ?thesis by (intro conjI exI [of _ ?t] exI [of _ "[True]"]) simp_all
qed

text \<open>
  C6 as stated fails: \<^verbatim>\<open>"1"\<close> after \<^verbatim>\<open>"12"\<close> splits the edge and the rest of the value,
  the empty string, becomes a label, in \<^verbatim>\<open>UnorderedEdges\<close> and \<^verbatim>\<open>OrderedEdges\<close>; with
  \<^verbatim>\<open>IndexedEdges\<close> the empty label has no slot.
\<close>

theorem empty_label_counterexample:
  "calls Unordered (CreateInstance Unordered CompactRadixTree) (map IsUnique_call [''12'', ''1''])
     = Inr (CompactRadixTreeAlgorithm
              (UnorderedEdges [(''1'', UnorderedEdges [(''2'', UnorderedEdges []), ([], UnorderedEdges [])])]),
            [True, True])
   \<and> \<not> every_node labels_nonempty
          (UnorderedEdges [(''1'', UnorderedEdges [(''2'', UnorderedEdges []), ([], UnorderedEdges [])])])
   \<and> calls Ordered (CreateInstance Ordered CompactRadixTree) (map IsUnique_call [''12'', ''1''])
     = Inr (CompactRadixTreeAlgorithm
              (OrderedEdges [(''12'', ''1'', OrderedEdges [([], [], OrderedEdges []), (''2'', ''2'', OrderedEdges [])])]),
            [True, True])
   \<and> calls Indexed (CreateInstance Indexed CompactRadixTree) (map IsUnique_call [''12'', ''1''])
     = Inl undefined_behaviour"
  by code_simp

subsection \<open>The shape of a tree is fixed by the values it holds\<close>

lemma group_of_edge:
  assumes "node_ok n" "e \<in> set (edges_of n)" "\<And>x. x \<in> set (edges_of n) \<Longrightarrow> fst x \<noteq> []"
  shows "(@) (fst e) ` words (snd e) = {x \<in> below n. first_of x = first_of (fst e)}"
proof (rule set_eqI)
  fix x
  from assms(3) [OF assms(2)] have ne: "fst e \<noteq> []" .
  show "x \<in> (@) (fst e) ` words (snd e) \<longleftrightarrow> x \<in> {x \<in> below n. first_of x = first_of (fst e)}"
  proof
    assume "x \<in> (@) (fst e) ` words (snd e)"
    then obtain w where w: "w \<in> words (snd e)" "x = fst e @ w" by blast
    from w(2) ne have f: "first_of x = first_of (fst e)" by (simp add: first_of_append)
    from below_via [OF assms(1,2) ne f assms(3)] w have "x \<in> below n" by blast
    with f show "x \<in> {x \<in> below n. first_of x = first_of (fst e)}" by simp
  next
    assume "x \<in> {x \<in> below n. first_of x = first_of (fst e)}"
    then have x: "x \<in> below n" "first_of x = first_of (fst e)" by simp_all
    from below_via [OF assms(1,2) ne x(2) assms(3)] x(1)
    show "x \<in> (@) (fst e) ` words (snd e)" by blast
  qed
qed

lemma label_not_shorter:
  assumes eq: "(@) l1 ` words c1 = (@) l2 ` words c2"
    and c1: "fixed_width d1 c1" "branching c1" and c2: "words c2 \<noteq> {}"
  shows "\<not> length l1 < length l2"
proof
  assume lt: "length l1 < length l2"
  from c2 obtain w2 where w2: "w2 \<in> words c2" by blast
  with eq have "l2 @ w2 \<in> (@) l1 ` words c1" by blast
  then obtain x0 where x0: "x0 \<in> words c1" "l2 @ w2 = l1 @ x0" by blast
  define s where "s = drop (length l1) l2"
  from x0(2) lt have l2: "l2 = l1 @ s"
    unfolding s_def by (metis append_eq_append_conv_if append_take_drop_id less_imp_le_nat)
  from lt l2 have s: "s \<noteq> []" by auto
  have fs: "first_of x = first_of s" if "x \<in> words c1" for x
  proof -
    from that eq have "l1 @ x \<in> (@) l2 ` words c2" by blast
    then obtain y where "l1 @ x = l2 @ y" by blast
    with l2 have "x = s @ y" by simp
    with s show ?thesis by (simp add: first_of_append)
  qed
  from fs s have "[] \<notin> words c1" by (metis first_of_None)
  then have ne: "edges_of c1 \<noteq> []" using words_leaf [of c1] by auto
  with c1(2) obtain a b where ab: "a \<in> firsts c1" "b \<in> firsts c1" "a \<noteq> b"
    unfolding branching_def by blast
  from c1(1) have ok: "edges_ok d1 c1" by (simp add: fixed_width_iff)
  have "a' = first_of s" if "a' \<in> firsts c1" for a'
  proof -
    from that obtain ea where ea: "ea \<in> set (edges_of c1)" "a' = first_of (fst ea)"
      unfolding firsts_def by auto
    note D = edges_okD [OF ok ea(1)]
    from D words_nonempty [of "d1 - length (fst ea)" "snd ea"] obtain w where
      w: "w \<in> words (snd ea)" by blast
    with ea(1) ne have "fst ea @ w \<in> words c1" by (auto simp: words_edges)
    from fs [OF this] D ea(2) show ?thesis by (simp add: first_of_append)
  qed
  with ab show False by blast
qed

lemma matching_edge:
  assumes g1: "node_ok n1" and g2: "node_ok n2"
    and ok1: "edges_ok d n1" and ok2: "edges_ok d n2" and b: "below n1 = below n2"
    and e1: "e1 \<in> set (edges_of n1)"
  shows "\<exists>e2\<in>set (edges_of n2). fst e2 = fst e1 \<and> words (snd e2) = words (snd e1)"
proof -
  note D1 = edges_okD [OF ok1 e1]
  have ne1: "\<And>x. x \<in> set (edges_of n1) \<Longrightarrow> fst x \<noteq> []" using edges_okD [OF ok1] by blast
  have ne2: "\<And>x. x \<in> set (edges_of n2) \<Longrightarrow> fst x \<noteq> []" using edges_okD [OF ok2] by blast
  from D1 words_nonempty [of "d - length (fst e1)" "snd e1"] obtain w1 where
    w1: "w1 \<in> words (snd e1)" by blast
  with e1 have "fst e1 @ w1 \<in> below n1" unfolding below_def by blast
  with b have "fst e1 @ w1 \<in> below n2" by simp
  then obtain e2 w2 where e2: "e2 \<in> set (edges_of n2)" "w2 \<in> words (snd e2)"
    "fst e1 @ w1 = fst e2 @ w2" unfolding below_def by blast
  note D2 = edges_okD [OF ok2 e2(1)]
  from e2(3) D1 D2 have f: "first_of (fst e1) = first_of (fst e2)"
    by (metis first_of_append)
  from group_of_edge [OF g1 e1 ne1] group_of_edge [OF g2 e2(1) ne2] b f
  have eq: "(@) (fst e1) ` words (snd e1) = (@) (fst e2) ` words (snd e2)" by simp
  from w1 have n1: "words (snd e1) \<noteq> {}" by blast
  from e2(2) have n2: "words (snd e2) \<noteq> {}" by blast
  from label_not_shorter [OF eq _ _ n2] D1 have "\<not> length (fst e1) < length (fst e2)" by blast
  moreover from label_not_shorter [OF eq [symmetric] _ _ n1] D2
  have "\<not> length (fst e2) < length (fst e1)" by blast
  ultimately have "length (fst e1) = length (fst e2)" by simp
  with e2(3) have l: "fst e2 = fst e1" by simp
  with eq have "(@) (fst e1) ` words (snd e1) = (@) (fst e1) ` words (snd e2)" by simp
  moreover have "inj ((@) (fst e1))" by (simp add: inj_on_def)
  ultimately have "words (snd e2) = words (snd e1)" by (metis inj_image_eq_iff)
  with e2(1) l show ?thesis by blast
qed

lemma located_subset:
  assumes "ginv E1 n1" "ginv E2 n2" "edges_ok d n1" "edges_ok d n2" "below n1 = below n2"
  shows "located n1 \<subseteq> located n2"
  using assms
proof (induction d arbitrary: n1 n2 rule: less_induct)
  case (less d)
  note g1 = less.prems(1) and g2 = less.prems(2) and ok1 = less.prems(3) and ok2 = less.prems(4)
  show ?case
  proof
    fix pl assume "pl \<in> located n1"
    then have pl: "(fst pl, snd pl) \<in> located n1" by simp
    have child: "located (snd e1) \<subseteq> located (snd e2)"
      if e1: "e1 \<in> set (edges_of n1)" and e2: "e2 \<in> set (edges_of n2)"
        and l: "fst e2 = fst e1" and w: "words (snd e2) = words (snd e1)" for e1 e2
    proof -
      note D1 = edges_okD [OF ok1 e1] and D2 = edges_okD [OF ok2 e2]
      let ?d = "d - length (fst e1)"
      from D1 have lt: "?d < d" by (cases "fst e1") auto
      from D1 have f1: "fixed_width ?d (snd e1)" by blast
      from D2 l have f2: "fixed_width ?d (snd e2)" by simp
      have "below (snd e1) = below (snd e2)"
      proof (cases "?d = 0")
        case True
        with f1 f2 have "edges_of (snd e1) = []" "edges_of (snd e2) = []"
          by (simp_all add: fixed_width_iff)
        then show ?thesis by (simp add: below_def)
      next
        case False
        with f1 f2 have "edges_of (snd e1) \<noteq> []" "edges_of (snd e2) \<noteq> []"
          by (simp_all add: fixed_width_iff)
        with w show ?thesis by (simp add: words_below)
      qed
      moreover from f1 f2 have "edges_ok ?d (snd e1)" "edges_ok ?d (snd e2)"
        by (simp_all add: fixed_width_iff)
      ultimately show ?thesis
        using less.IH [OF lt ginvD(3) [OF g1 e1] ginvD(3) [OF g2 e2]] by blast
    qed
    from pl have "(fst pl, snd pl) \<in> located n2"
    proof (cases rule: located_cases)
      case (1 e1)
      from matching_edge [OF ginvD(2) [OF g1] ginvD(2) [OF g2] ok1 ok2 less.prems(5) 1(1)]
      obtain e2 where e2: "e2 \<in> set (edges_of n2)" "fst e2 = fst e1" by blast
      from located_edge [OF e2(1)] e2(2) 1 show ?thesis by simp
    next
      case (2 e1 q)
      from matching_edge [OF ginvD(2) [OF g1] ginvD(2) [OF g2] ok1 ok2 less.prems(5) 2(1)]
      obtain e2 where e2: "e2 \<in> set (edges_of n2)" "fst e2 = fst e1"
        "words (snd e2) = words (snd e1)" by blast
      from child [OF 2(1) e2] 2(3) have "(q, snd pl) \<in> located (snd e2)" by blast
      from located_below [OF e2(1) this] e2(2) 2(2) show ?thesis by simp
    qed
    then show "pl \<in> located n2" by simp
  qed
qed

lemma same_values_same_shape:
  assumes "holds E1 d t1 S" "holds E2 d t2 S"
  shows "located t1 = located t2"
proof
  from assms have a: "ginv E1 t1" "ginv E2 t2" "edges_ok d t1" "edges_ok d t2" "below t1 = below t2"
    by (simp_all add: holds_def)
  from located_subset [OF a] show "located t1 \<subseteq> located t2" .
  from located_subset [OF a(2,1,4,3) a(5) [symmetric]] show "located t2 \<subseteq> located t1" .
qed

subsection \<open>Find on collections that hold the same edges\<close>

lemma UnorderedEdges_Find_loop_None:
  "UnorderedEdges_Find_loop c r j = Inr (0, p) \<Longrightarrow> p = None"
proof (induction c arbitrary: j)
  case Nil
  then show ?case by simp
next
  case (Cons x c)
  show ?case
  proof (cases "GetNumCommonChars (fst x) r")
    case (Inl e)
    with Cons.prems show ?thesis by simp
  next
    case (Inr m)
    with Cons.prems have "m = 0" by (auto split: if_splits)
    with Inr Cons.prems have "UnorderedEdges_Find_loop c r (Suc j) = Inr (0, p)" by simp
    from Cons.IH [OF this] show ?thesis .
  qed
qed

lemma Edges_Find_zero_None:
  assumes "node_ok n" "Edges_Find n r = Inr (0, p)"
  shows "p = None"
proof (cases n)
  case (UnorderedEdges c)
  with assms(2) have "UnorderedEdges_Find_loop c r 0 = Inr (0, p)"
    by (simp add: UnorderedEdges_Find_def)
  then show ?thesis by (rule UnorderedEdges_Find_loop_None)
next
  case (OrderedEdges c)
  with assms(2) have "OrderedEdges_Find c r = Inr (0, p)" by simp
  from OrderedEdges_Find_Inr [OF this] have res: "OrderedEdges_Find_result c r = (0, p)" by simp
  show ?thesis
  proof (cases "c = []")
    case True
    with res show ?thesis by (simp add: OrderedEdges_Find_result_empty)
  next
    case c: False
    have first0: "\<not> (upper_bound c r \<noteq> length c \<and> 0 < common (fst (snd (c ! upper_bound c r))) r)"
    proof
      assume "upper_bound c r \<noteq> length c \<and> 0 < common (fst (snd (c ! upper_bound c r))) r"
      with OrderedEdges_Find_result_first [OF c] res show False by simp
    qed
    show ?thesis
    proof (cases "upper_bound c r = 0")
      case True
      from OrderedEdges_Find_result_begin [OF c first0 True] res show ?thesis by simp
    next
      case False
      from OrderedEdges_Find_result_second [OF c first0 False] res show ?thesis
        by (simp split: if_splits)
    qed
  qed
next
  case (IndexedEdges c)
  with assms(2) have "IndexedEdges_Find c r = Inr (0, p)" by simp
  note F = IndexedEdges_Find_Inr [OF this]
  let ?i = "nat (char0_minus_zero r)"
  show ?thesis
  proof (cases "c ! ?i")
    case None
    with F show ?thesis by simp
  next
    case (Some e)
    with F have k: "common (fst e) r = 0" and il: "?i < length c" and pos: "0 \<le> char0_minus_zero r"
      by simp_all
    from assms(1) IndexedEdges have "node_ok (IndexedEdges c)" by simp
    from node_ok_IndexedD [OF this il Some] pos have eq: "char0_minus_zero r = char0_minus_zero (fst e)"
      by simp
    from char0_inj [OF eq pos] have f: "first_of r = first_of (fst e)" .
    from pos have "r \<noteq> []" by (auto simp: char0_minus_zero_def)
    then have "first_of r \<noteq> None" by (simp add: first_of_None)
    with f k show ?thesis by (simp add: common_zero_first)
  qed
qed

text \<open>The edge a pointer returned by \<^verbatim>\<open>Find\<close> points to.\<close>

definition found :: "node \<Rightarrow> nat option \<Rightarrow> edge option" where
  "found n p = (case p of None \<Rightarrow> None | Some i \<Rightarrow> GetEdge n i)"

lemma Edges_Find_agree:
  assumes ok: "node_ok n1" "node_ok n2" and es: "fst ` set (edges_of n1) = fst ` set (edges_of n2)"
    and F1: "Edges_Find n1 r = Inr (k1, p1)" and F2: "Edges_Find n2 r = Inr (k2, p2)"
  shows "k1 = k2 \<and> map_option fst (found n1 p1) = map_option fst (found n2 p2)"
proof -
  have one: "k2 = k1 \<and> map_option fst (found n2 p2) = map_option fst (found n1 p1)"
    if F1: "Edges_Find n1 r = Inr (k1, p1)" and F2: "Edges_Find n2 r = Inr (k2, p2)"
      and ok: "node_ok n1" "node_ok n2" and es: "fst ` set (edges_of n1) = fst ` set (edges_of n2)"
      and k1: "0 < k1" for n1 n2 k1 k2 p1 p2
  proof -
    from Edges_Find_pos [OF F1 k1] obtain i1 e1 where
      1: "p1 = Some i1" "GetEdge n1 i1 = Some e1" "k1 = common (fst e1) r" by blast
    from GetEdge_in_edges [OF 1(2)] have "fst e1 \<in> fst ` set (edges_of n1)" by simp
    with es have "fst e1 \<in> fst ` set (edges_of n2)" by simp
    then obtain e where e: "e \<in> set (edges_of n2)" "fst e = fst e1" by auto
    have k2: "0 < k2"
    proof (rule ccontr)
      assume "\<not> 0 < k2"
      with F2 have "Edges_Find n2 r = Inr (0, p2)" by simp
      from Edges_Find_zero [OF ok(2) this e(1)] e(2) 1(3) k1 show False by simp
    qed
    from Edges_Find_pos [OF F2 k2] obtain i2 e2 where
      2: "p2 = Some i2" "GetEdge n2 i2 = Some e2" "k2 = common (fst e2) r" by blast
    from 1(3) k1 2(3) k2 e(2) have "first_of (fst e) = first_of (fst e2)"
      by (simp add: common_pos_first)
    from nodup_edges [OF ok(2) e(1) GetEdge_in_edges [OF 2(2)] this] have "e = e2" .
    with 1 2 e(2) show ?thesis by (simp add: found_def)
  qed
  show ?thesis
  proof (cases "0 < k1")
    case True
    from one [OF F1 F2 ok es True] show ?thesis by simp
  next
    case k1: False
    show ?thesis
    proof (cases "0 < k2")
      case True
      from one [OF F2 F1 ok(2,1) es [symmetric] True] show ?thesis by simp
    next
      case False
      with k1 F1 F2 have Z: "Edges_Find n1 r = Inr (0, p1)" "Edges_Find n2 r = Inr (0, p2)" by simp_all
      from Edges_Find_zero_None [OF ok(1) Z(1)] Edges_Find_zero_None [OF ok(2) Z(2)] k1 False
      show ?thesis by (simp add: found_def)
    qed
  qed
qed

lemma one_width_run_returned:
  assumes "one_width vs"
    and "calls E (CreateInstance E CompactRadixTree) (map IsUnique_call vs)
           = Inr (CompactRadixTreeAlgorithm t, bs)"
  shows "bs = fresh_flags {} vs \<and> holds E (length (hd vs)) t (set vs)"
  using one_width_run_or_undefined [OF assms(1), of E] assms(2)
  by (auto simp: CreateInstance_def)

text \<open>
  C5, as the code has it. For values of one length the engine with \<^verbatim>\<open>UnorderedEdges\<close> and
  the engine with \<^verbatim>\<open>IndexedEdges\<close> return, with the same results and with trees of the
  same shape: the same labels at the same places. Whenever the engine with
  \<^verbatim>\<open>OrderedEdges\<close> returns, its results and the shape of its tree are those as well. On
  two well-formed collections with the same labels, whenever \<^verbatim>\<open>Find\<close> returns on both,
  it returns the same count and an edge with the same label; on a remainder that begins
  with a digit it returns with \<^verbatim>\<open>UnorderedEdges\<close> and with \<^verbatim>\<open>IndexedEdges\<close>.
\<close>

theorem strategies_interchangeable:
  "(one_width vs \<longrightarrow>
      (\<exists>tU tI bs.
          calls Unordered (CreateInstance Unordered CompactRadixTree) (map IsUnique_call vs)
            = Inr (CompactRadixTreeAlgorithm tU, bs)
        \<and> calls Indexed (CreateInstance Indexed CompactRadixTree) (map IsUnique_call vs)
            = Inr (CompactRadixTreeAlgorithm tI, bs)
        \<and> located tU = located tI
        \<and> (\<forall>tO bs'. calls Ordered (CreateInstance Ordered CompactRadixTree) (map IsUnique_call vs)
                       = Inr (CompactRadixTreeAlgorithm tO, bs')
                     \<longrightarrow> bs' = bs \<and> located tO = located tI)))
   \<and> (\<forall>n1 n2 r k1 p1 k2 p2.
         node_ok n1 \<and> node_ok n2 \<and> fst ` set (edges_of n1) = fst ` set (edges_of n2)
         \<and> Edges_Find n1 r = Inr (k1, p1) \<and> Edges_Find n2 r = Inr (k2, p2)
         \<longrightarrow> k1 = k2 \<and> map_option fst (found n1 p1) = map_option fst (found n2 p2))
   \<and> (\<forall>n r. node_ok n \<and> kind n \<noteq> Ordered \<and> r \<noteq> [] \<and> isdigit (hd r)
         \<longrightarrow> (\<exists>k p. Edges_Find n r = Inr (k, p)))"
proof (intro conjI allI impI)
  assume h: "one_width vs"
  have eU: "Unordered \<noteq> Ordered" and eI: "Indexed \<noteq> Ordered" by simp_all
  from one_width_run [OF h eU] obtain tU where
    tU: "calls Unordered (CompactRadixTreeAlgorithm (Node_new Unordered)) (map IsUnique_call vs)
           = Inr (CompactRadixTreeAlgorithm tU, fresh_flags {} vs)"
      "holds Unordered (length (hd vs)) tU (set vs)" by blast
  from one_width_run [OF h eI] obtain tI where
    tI: "calls Indexed (CompactRadixTreeAlgorithm (Node_new Indexed)) (map IsUnique_call vs)
           = Inr (CompactRadixTreeAlgorithm tI, fresh_flags {} vs)"
      "holds Indexed (length (hd vs)) tI (set vs)" by blast
  have "located tU = located tI" using tU(2) tI(2) by (rule same_values_same_shape)
  moreover have "bs' = fresh_flags {} vs \<and> located tO = located tI"
    if "calls Ordered (CreateInstance Ordered CompactRadixTree) (map IsUnique_call vs)
          = Inr (CompactRadixTreeAlgorithm tO, bs')" for tO bs'
  proof -
    from one_width_run_returned [OF h that]
    have "bs' = fresh_flags {} vs" "holds Ordered (length (hd vs)) tO (set vs)" by simp_all
    with same_values_same_shape [OF this(2) tI(2)] show ?thesis by simp
  qed
  ultimately show "\<exists>tU tI bs.
          calls Unordered (CreateInstance Unordered CompactRadixTree) (map IsUnique_call vs)
            = Inr (CompactRadixTreeAlgorithm tU, bs)
        \<and> calls Indexed (CreateInstance Indexed CompactRadixTree) (map IsUnique_call vs)
            = Inr (CompactRadixTreeAlgorithm tI, bs)
        \<and> located tU = located tI
        \<and> (\<forall>tO bs'. calls Ordered (CreateInstance Ordered CompactRadixTree) (map IsUnique_call vs)
                       = Inr (CompactRadixTreeAlgorithm tO, bs')
                     \<longrightarrow> bs' = bs \<and> located tO = located tI)"
    using tU(1) tI(1) unfolding CreateInstance_def
    by (intro exI [of _ tU] exI [of _ tI] exI [of _ "fresh_flags {} vs"]) simp
next
  fix n1 n2 r k1 p1 k2 p2
  assume a: "node_ok n1 \<and> node_ok n2 \<and> fst ` set (edges_of n1) = fst ` set (edges_of n2)
         \<and> Edges_Find n1 r = Inr (k1, p1) \<and> Edges_Find n2 r = Inr (k2, p2)"
  then have "node_ok n1" "node_ok n2" "fst ` set (edges_of n1) = fst ` set (edges_of n2)"
    "Edges_Find n1 r = Inr (k1, p1)" "Edges_Find n2 r = Inr (k2, p2)" by simp_all
  from Edges_Find_agree [OF this] show "k1 = k2"
    and "map_option fst (found n1 p1) = map_option fst (found n2 p2)" by simp_all
next
  fix n r
  assume a: "node_ok n \<and> kind n \<noteq> Ordered \<and> r \<noteq> [] \<and> isdigit (hd r)"
  then have "r \<noteq> []" "kind n = Indexed \<longrightarrow> node_ok n \<and> isdigit (hd r)"
    "\<forall>c. n = OrderedEdges c \<longrightarrow> \<not> at_begin c r" by auto
  then show "\<exists>k p. Edges_Find n r = Inr (k, p)" by (rule Edges_Find_total)
qed

theorem strategies_interchangeable_witness:
  "one_width [''12'', ''13'', ''22'']
   \<and> calls Ordered (CreateInstance Ordered CompactRadixTree) (map IsUnique_call [''12'', ''13'', ''22''])
       = Inr (CompactRadixTreeAlgorithm
                (OrderedEdges [(''12'', ''1'', OrderedEdges [(''2'', ''2'', Node_new Ordered), (''3'', ''3'', Node_new Ordered)]), (''22'', ''22'', Node_new Ordered)]),
              [True, True, True])
   \<and> (\<exists>tU tI.
          calls Unordered (CreateInstance Unordered CompactRadixTree) (map IsUnique_call [''12'', ''13'', ''22''])
            = Inr (CompactRadixTreeAlgorithm tU, [True, True, True])
        \<and> calls Indexed (CreateInstance Indexed CompactRadixTree) (map IsUnique_call [''12'', ''13'', ''22''])
            = Inr (CompactRadixTreeAlgorithm tI, [True, True, True])
        \<and> located tU = located tI
        \<and> located (OrderedEdges [(''12'', ''1'', OrderedEdges [(''2'', ''2'', Node_new Ordered), (''3'', ''3'', Node_new Ordered)]), (''22'', ''22'', Node_new Ordered)]) = located tI)
   \<and> node_ok (UnorderedEdges [(''2'', Node_new Unordered), (''13'', Node_new Unordered)])
   \<and> node_ok (IndexedEdges [None, Some (''13'', Node_new Indexed), Some (''2'', Node_new Indexed),
        None, None, None, None, None, None, None])
   \<and> fst ` set (edges_of (UnorderedEdges [(''2'', Node_new Unordered), (''13'', Node_new Unordered)])) = fst ` set (edges_of (IndexedEdges [None, Some (''13'', Node_new Indexed), Some (''2'', Node_new Indexed),
        None, None, None, None, None, None, None]))
   \<and> Edges_Find (UnorderedEdges [(''2'', Node_new Unordered), (''13'', Node_new Unordered)]) ''15'' = Inr (1, Some 1)
   \<and> Edges_Find (IndexedEdges [None, Some (''13'', Node_new Indexed), Some (''2'', Node_new Indexed),
        None, None, None, None, None, None, None]) ''15'' = Inr (1, Some 1)
   \<and> found (UnorderedEdges [(''2'', Node_new Unordered), (''13'', Node_new Unordered)]) (Some 1) = Some (''13'', Node_new Unordered)
   \<and> map_option fst (found (UnorderedEdges [(''2'', Node_new Unordered), (''13'', Node_new Unordered)]) (Some 1)) = map_option fst (found (IndexedEdges [None, Some (''13'', Node_new Indexed), Some (''2'', Node_new Indexed),
        None, None, None, None, None, None, None]) (Some 1))"
proof -
  let ?tO = "(OrderedEdges [(''12'', ''1'', OrderedEdges [(''2'', ''2'', Node_new Ordered), (''3'', ''3'', Node_new Ordered)]), (''22'', ''22'', Node_new Ordered)])"
  let ?nU = "(UnorderedEdges [(''2'', Node_new Unordered), (''13'', Node_new Unordered)])"
  let ?nI = "(IndexedEdges [None, Some (''13'', Node_new Indexed), Some (''2'', Node_new Indexed),
        None, None, None, None, None, None, None])"
  note T = strategies_interchangeable [of "[''12'', ''13'', ''22'']"]
  have h: "one_width [''12'', ''13'', ''22'']"
    by (simp add: one_width_def isdigits_def isdigit_def)
  have c: "calls Ordered (CreateInstance Ordered CompactRadixTree) (map IsUnique_call [''12'', ''13'', ''22''])
       = Inr (CompactRadixTreeAlgorithm ?tO, [True, True, True])"
    by code_simp
  from T h obtain tU tI bs where
    r: "calls Unordered (CreateInstance Unordered CompactRadixTree) (map IsUnique_call [''12'', ''13'', ''22''])
            = Inr (CompactRadixTreeAlgorithm tU, bs)"
      "calls Indexed (CreateInstance Indexed CompactRadixTree) (map IsUnique_call [''12'', ''13'', ''22''])
            = Inr (CompactRadixTreeAlgorithm tI, bs)"
      "located tU = located tI"
      "\<forall>tO bs'. calls Ordered (CreateInstance Ordered CompactRadixTree) (map IsUnique_call [''12'', ''13'', ''22''])
                       = Inr (CompactRadixTreeAlgorithm tO, bs')
                     \<longrightarrow> bs' = bs \<and> located tO = located tI"
    by blast
  from r(4) c have o: "[True, True, True] = bs" "located ?tO = located tI" by blast+
  from r(1,2,3) o have runs: "\<exists>tU tI.
          calls Unordered (CreateInstance Unordered CompactRadixTree) (map IsUnique_call [''12'', ''13'', ''22''])
            = Inr (CompactRadixTreeAlgorithm tU, [True, True, True])
        \<and> calls Indexed (CreateInstance Indexed CompactRadixTree) (map IsUnique_call [''12'', ''13'', ''22''])
            = Inr (CompactRadixTreeAlgorithm tI, [True, True, True])
        \<and> located tU = located tI
        \<and> located ?tO = located tI"
    by blast
  have nU: "node_ok ?nU" by simp
  have nI: "node_ok ?nI"
    by (simp add: nth_Cons' char0_minus_zero_def less_Suc_eq eval_nat_numeral)
  have es: "fst ` set (edges_of ?nU) = fst ` set (edges_of ?nI)"
    by (auto simp: image_iff)
  have fU: "Edges_Find ?nU ''15'' = Inr (1, Some 1)" by code_simp
  have fI: "Edges_Find ?nI ''15'' = Inr (1, Some 1)" by code_simp
  have e: "found ?nU (Some 1) = Some (''13'', Node_new Unordered)" by (simp add: found_def)
  from T have "\<forall>n1 n2 r k1 p1 k2 p2.
         node_ok n1 \<and> node_ok n2 \<and> fst ` set (edges_of n1) = fst ` set (edges_of n2)
         \<and> Edges_Find n1 r = Inr (k1, p1) \<and> Edges_Find n2 r = Inr (k2, p2)
         \<longrightarrow> k1 = k2 \<and> map_option fst (found n1 p1) = map_option fst (found n2 p2)"
    by (rule conjunct1 [OF conjunct2])
  from this [rule_format, of ?nU ?nI "''15''" 1 "Some 1" 1 "Some 1"] nU nI es fU fI
  have a: "map_option fst (found ?nU (Some 1)) = map_option fst (found ?nI (Some 1))" by blast
  from h c runs nU nI es fU fI e a show ?thesis by (intro conjI)
qed

text \<open>
  C5 as stated fails. After \<^verbatim>\<open>"12"\<close> the value \<^verbatim>\<open>"1"\<close> is answered with
  \<^verbatim>\<open>UnorderedEdges\<close>, and with \<^verbatim>\<open>IndexedEdges\<close> the call indexes the vector with the empty
  label. After \<^verbatim>\<open>"5"\<close> the value \<^verbatim>\<open>"3"\<close> is answered with \<^verbatim>\<open>IndexedEdges\<close>, and with
  \<^verbatim>\<open>OrderedEdges\<close> the lookup decrements \<^verbatim>\<open>begin()\<close>.
\<close>

theorem strategies_differ_counterexample:
  "map_sum id snd (calls Unordered (CreateInstance Unordered CompactRadixTree)
       (map IsUnique_call [''12'', ''1''])) = Inr [True, True]
   \<and> calls Indexed (CreateInstance Indexed CompactRadixTree) (map IsUnique_call [''12'', ''1''])
       = Inl undefined_behaviour
   \<and> map_sum id snd (calls Indexed (CreateInstance Indexed CompactRadixTree)
       (map IsUnique_call [''5'', ''3''])) = Inr [True, True]
   \<and> calls Ordered (CreateInstance Ordered CompactRadixTree) (map IsUnique_call [''5'', ''3''])
       = Inl undefined_behaviour"
  by code_simp

end
